theory Spec2Isabelle
  imports Complex_Main "HOL-Library.AList" "HOL-Library.Char_ord" "HOL-Library.List_Lexorder"
begin

section \<open>Python's decimal arithmetic under the context of the source\<close>

text \<open>
  Both \<^verbatim>\<open>core/fibonacci_logic.py\<close> and \<^verbatim>\<open>phi/consensus/phi_validator.py\<close> set
  \<^verbatim>\<open>getcontext().prec = 50\<close> and otherwise run under the default context of the
  \<^verbatim>\<open>decimal\<close> module: rounding ROUND_HALF_EVEN, Emax = 999999, Emin = -999999, clamp = 0,
  traps on InvalidOperation, DivisionByZero and Overflow. A finite \<^verbatim>\<open>Decimal\<close> is the
  triple (sign, coefficient, exponent) with value \<open>(-1)^sign * coefficient * 10^exponent\<close>.
  The operations below follow the module's reference implementation (\<^verbatim>\<open>_pydecimal\<close>)
  for finite operands; a trapped signal is an error value.
\<close>

record decimal =
  dsign :: bool
  dint :: nat
  dexp :: int

datatype dec_error = Overflow | DivisionByZero | InvalidOperation

definition prec :: int where
  "prec = 50"

definition Emax :: int where
  "Emax = 999999"

definition Emin :: int where
  "Emin = - 999999"

definition Etiny :: int where
  "Etiny = Emin - prec + 1"

definition Etop :: int where
  "Etop = Emax - prec + 1"

text \<open>\<^verbatim>\<open>len(str(n))\<close>: the number of decimal digits of a coefficient.\<close>

fun ndigits :: "nat \<Rightarrow> nat" where
  "ndigits n = (if n < 10 then 1 else ndigits (n div 10) + 1)"

declare ndigits.simps [simp del]

text \<open>
  Dropping the last \<open>k\<close> digits of a coefficient under ROUND_HALF_EVEN: the kept digits,
  and whether they are incremented.
\<close>

definition round_up :: "nat \<Rightarrow> nat \<Rightarrow> bool" where
  "round_up c k =
     (let q = c div 10 ^ k; r = c mod 10 ^ k
      in 2 * r > 10 ^ k \<or> (2 * r = 10 ^ k \<and> odd q))"

text \<open>
  \<^verbatim>\<open>Decimal._fix\<close>: round to the context precision and check the exponent range.
  When the coefficient is shorter than the digits to drop, Python replaces the number by
  \<open>1 * 10^(exp_min - 1)\<close> and rounds that to zero; the quotient below is zero there too.
\<close>

definition dec_fix :: "decimal \<Rightarrow> dec_error + decimal" where
  "dec_fix d =
     (if dint d = 0 then Inr (d\<lparr>dexp := min (max (dexp d) Etiny) Emax\<rparr>)
      else
        let exp_min0 = int (ndigits (dint d)) + dexp d - prec in
        if exp_min0 > Etop then Inl Overflow
        else
          let exp_min = (if exp_min0 < Etiny then Etiny else exp_min0) in
          if dexp d < exp_min then
            let k = nat (exp_min - dexp d);
                coeff = dint d div 10 ^ k
            in if round_up (dint d) k then
                 (if int (ndigits (coeff + 1)) > prec then
                    (if exp_min + 1 > Etop then Inl Overflow
                     else Inr \<lparr>dsign = dsign d, dint = (coeff + 1) div 10, dexp = exp_min + 1\<rparr>)
                  else Inr \<lparr>dsign = dsign d, dint = coeff + 1, dexp = exp_min\<rparr>)
               else Inr \<lparr>dsign = dsign d, dint = coeff, dexp = exp_min\<rparr>
          else Inr d)"

text \<open>\<^verbatim>\<open>Decimal(n)\<close> for a Python int: exact, whatever the size of \<open>n\<close>.\<close>

definition Decimal :: "int \<Rightarrow> decimal" where
  "Decimal n = \<lparr>dsign = (n < 0), dint = nat \<bar>n\<bar>, dexp = 0\<rparr>"

text \<open>\<^verbatim>\<open>Decimal.__mul__\<close>\<close>

definition dec_mul :: "decimal \<Rightarrow> decimal \<Rightarrow> dec_error + decimal" where
  "dec_mul a b =
     dec_fix \<lparr>dsign = (dsign a \<noteq> dsign b), dint = dint a * dint b, dexp = dexp a + dexp b\<rparr>"

text \<open>
  The loop of \<^verbatim>\<open>Decimal.__truediv__\<close> that brings an exact quotient as close as possible
  to the ideal exponent.
\<close>

function strip_zeros :: "nat \<Rightarrow> int \<Rightarrow> int \<Rightarrow> nat \<times> int" where
  "strip_zeros coeff e ideal =
     (if e < ideal \<and> coeff mod 10 = 0 then strip_zeros (coeff div 10) (e + 1) ideal
      else (coeff, e))"
  by pat_completeness auto
termination
  by (relation "measure (\<lambda>(coeff, e, ideal). nat (ideal - e))") auto

declare strip_zeros.simps [simp del]

text \<open>\<^verbatim>\<open>Decimal.__truediv__\<close>\<close>

definition dec_div :: "decimal \<Rightarrow> decimal \<Rightarrow> dec_error + decimal" where
  "dec_div a b =
     (if dint b = 0 then (if dint a = 0 then Inl InvalidOperation else Inl DivisionByZero)
      else if dint a = 0 then
        dec_fix \<lparr>dsign = (dsign a \<noteq> dsign b), dint = 0, dexp = dexp a - dexp b\<rparr>
      else
        let shift = int (ndigits (dint b)) - int (ndigits (dint a)) + prec + 1;
            e = dexp a - dexp b - shift;
            num = (if shift \<ge> 0 then dint a * 10 ^ nat shift else dint a);
            den = (if shift \<ge> 0 then dint b else dint b * 10 ^ nat (- shift));
            coeff = num div den;
            remainder = num mod den;
            (coeff', e') =
               (if remainder \<noteq> 0 then ((if coeff mod 5 = 0 then coeff + 1 else coeff), e)
                else strip_zeros coeff e (dexp a - dexp b))
        in dec_fix \<lparr>dsign = (dsign a \<noteq> dsign b), dint = coeff', dexp = e'\<rparr>)"

text \<open>\<^verbatim>\<open>Decimal._rescale\<close> under ROUND_HALF_EVEN\<close>

definition dec_rescale :: "decimal \<Rightarrow> int \<Rightarrow> decimal" where
  "dec_rescale d e =
     (if dint d = 0 then \<lparr>dsign = dsign d, dint = 0, dexp = e\<rparr>
      else if dexp d \<ge> e then
        \<lparr>dsign = dsign d, dint = dint d * 10 ^ nat (dexp d - e), dexp = e\<rparr>
      else
        let k = nat (e - dexp d);
            coeff = dint d div 10 ^ k
        in \<lparr>dsign = dsign d, dint = (if round_up (dint d) k then coeff + 1 else coeff), dexp = e\<rparr>)"

text \<open>
  \<^verbatim>\<open>_normalize(op1, op2, prec)\<close>: both coefficients brought to one exponent, the
  smaller operand replaced by \<open>1 * 10^exp\<close> when it lies below the rounding position.
  The result is (coefficient of op1, coefficient of op2, common exponent).
\<close>

definition normalize_ops :: "decimal \<Rightarrow> decimal \<Rightarrow> nat \<times> nat \<times> int" where
  "normalize_ops op1 op2 =
     (let (tmp, other) = (if dexp op1 < dexp op2 then (op2, op1) else (op1, op2));
          tmp_len = int (ndigits (dint tmp));
          other_len = int (ndigits (dint other));
          e = dexp tmp + min (- 1) (tmp_len - prec - 2);
          (other_int, other_exp) =
             (if other_len + dexp other - 1 < e then (1, e) else (dint other, dexp other));
          tmp_int = dint tmp * 10 ^ nat (dexp tmp - other_exp)
      in if dexp op1 < dexp op2 then (other_int, tmp_int, other_exp)
         else (tmp_int, other_int, other_exp))"

text \<open>\<^verbatim>\<open>Decimal.__add__\<close> (the rounding mode is not ROUND_FLOOR, so a zero sum is +0)\<close>

definition dec_add :: "decimal \<Rightarrow> decimal \<Rightarrow> dec_error + decimal" where
  "dec_add a b =
     (let e = min (dexp a) (dexp b) in
      if dint a = 0 \<and> dint b = 0 then
        dec_fix \<lparr>dsign = (dsign a \<and> dsign b), dint = 0, dexp = e\<rparr>
      else if dint a = 0 then dec_fix (dec_rescale b (max e (dexp b - prec - 1)))
      else if dint b = 0 then dec_fix (dec_rescale a (max e (dexp a - prec - 1)))
      else
        let (c1, c2, ne) = normalize_ops a b in
        if dsign a \<noteq> dsign b then
          (if c1 = c2 then dec_fix \<lparr>dsign = False, dint = 0, dexp = e\<rparr>
           else if c1 < c2 then dec_fix \<lparr>dsign = dsign b, dint = c2 - c1, dexp = ne\<rparr>
           else dec_fix \<lparr>dsign = dsign a, dint = c1 - c2, dexp = ne\<rparr>)
        else dec_fix \<lparr>dsign = dsign a, dint = c1 + c2, dexp = ne\<rparr>)"

text \<open>\<^verbatim>\<open>Decimal.__int__\<close>: truncation towards zero.\<close>

definition dec_to_int :: "decimal \<Rightarrow> int" where
  "dec_to_int d =
     (let m = (if dexp d \<ge> 0 then int (dint d) * 10 ^ nat (dexp d)
               else int (dint d div 10 ^ nat (- dexp d)))
      in if dsign d then - m else m)"

text \<open>Comparison of finite decimals is by value: \<open>d == 0\<close> and \<open>a < b\<close>.\<close>

definition dec_is_zero :: "decimal \<Rightarrow> bool" where
  "dec_is_zero d = (dint d = 0)"

definition dec_scaled :: "decimal \<Rightarrow> int \<Rightarrow> int" where
  "dec_scaled d e = (if dsign d then - 1 else 1) * int (dint d) * 10 ^ nat (dexp d - e)"

definition dec_less :: "decimal \<Rightarrow> decimal \<Rightarrow> bool" where
  "dec_less a b = (let e = min (dexp a) (dexp b) in dec_scaled a e < dec_scaled b e)"

text \<open>The builtin \<^verbatim>\<open>min(a, b)\<close> returns \<open>a\<close> unless \<open>b < a\<close>.\<close>

definition dec_min :: "decimal \<Rightarrow> decimal \<Rightarrow> decimal" where
  "dec_min a b = (if dec_less b a then b else a)"

section \<open>core/fibonacci_logic.py: PhiMath\<close>

text \<open>
  \<^verbatim>\<open>PhiMath.golden_ratio(10)\<close>: \<open>(1 + sqrt 5) / 2\<close> at 50 digits, quantized to ten places,
  which is the decimal 1.6180339887.
\<close>

definition golden_ratio_10 :: decimal where
  "golden_ratio_10 = \<lparr>dsign = False, dint = 16180339887, dexp = - 10\<rparr>"

text \<open>\<^verbatim>\<open>PhiMath.golden_ratio(2)\<close> is 1.62.\<close>

definition golden_ratio_2 :: decimal where
  "golden_ratio_2 = \<lparr>dsign = False, dint = 162, dexp = - 2\<rparr>"

text \<open>The loop \<^verbatim>\<open>for _ in range(2, n + 1): a, b = b, a + b\<close>, by the number of rounds left.\<close>

fun fib_loop :: "nat \<Rightarrow> int \<Rightarrow> int \<Rightarrow> int" where
  "fib_loop 0 a b = b"
| "fib_loop (Suc k) a b = fib_loop k b (a + b)"

definition fibonacci :: "int \<Rightarrow> int" where
  "fibonacci n =
     (if n \<le> 0 then 0
      else if n = 1 then 1
      else fib_loop (nat (n - 1)) 0 1)"

text \<open>\<^verbatim>\<open>fibonacci_sequence(start, count)\<close>: the loop over \<^verbatim>\<open>range(start, start + count)\<close>.\<close>

definition fibonacci_sequence :: "int \<Rightarrow> int \<Rightarrow> int list" where
  "fibonacci_sequence start count =
     map (\<lambda>k. fibonacci (start + int k)) [0 ..< nat count]"

text \<open>
  The loop of \<^verbatim>\<open>fibonacci_distribution\<close> over the slots, with the list of rewards built so
  far and the reward still remaining.
\<close>

fun distribute_loop ::
  "int list \<Rightarrow> int \<Rightarrow> int \<Rightarrow> int list \<Rightarrow> int \<Rightarrow> dec_error + (int list \<times> int)" where
  "distribute_loop [] total_fib total_reward rewards remaining = Inr (rewards, remaining)"
| "distribute_loop (f # fs) total_fib total_reward rewards remaining =
     (case dec_div (Decimal f) (Decimal total_fib) of
        Inl err \<Rightarrow> Inl err
      | Inr share \<Rightarrow>
          (case dec_mul share (Decimal total_reward) of
             Inl err \<Rightarrow> Inl err
           | Inr p \<Rightarrow>
               let reward_amount = dec_to_int p
               in distribute_loop fs total_fib total_reward
                    (rewards @ [reward_amount]) (remaining - reward_amount)))"

definition fibonacci_distribution :: "int \<Rightarrow> int \<Rightarrow> dec_error + int list" where
  "fibonacci_distribution total_reward count =
     (if count \<le> 0 then Inr []
      else
        let fib_numbers = fibonacci_sequence 1 count;
            total_fib = sum_list fib_numbers
        in if total_fib = 0 then Inr (replicate (nat count) 0)
           else
             (case distribute_loop fib_numbers total_fib total_reward [] total_reward of
                Inl err \<Rightarrow> Inl err
              | Inr (rewards, remaining) \<Rightarrow>
                  (case rewards of
                     [] \<Rightarrow> Inr []
                   | r # rs \<Rightarrow> Inr ((r + remaining) # rs))))"

section \<open>phi/consensus/phi_validator.py: the consensus engine\<close>

text \<open>Sequencing of computations that may raise: the first error is the result.\<close>

definition bind_err :: "'e + 'a \<Rightarrow> ('a \<Rightarrow> 'e + 'b) \<Rightarrow> 'e + 'b" where
  "bind_err m f = (case m of Inl err \<Rightarrow> Inl err | Inr x \<Rightarrow> f x)"

text \<open>
  \<^verbatim>\<open>golden_ratio(10) ** Decimal(n)\<close> for a Python int \<open>n\<close>. The module documents the power
  as the correctly rounded result; it is modelled as the exact power of 1.6180339887
  rounded once to the context (for a negative exponent, its correctly rounded inverse).
\<close>

definition golden_pow :: "int \<Rightarrow> dec_error + decimal" where
  "golden_pow n =
     (if n = 0 then Inr \<lparr>dsign = False, dint = 1, dexp = 0\<rparr>
      else if n > 0 then
        dec_fix \<lparr>dsign = False, dint = dint golden_ratio_10 ^ nat n,
                 dexp = dexp golden_ratio_10 * n\<rparr>
      else
        dec_div \<lparr>dsign = False, dint = 1, dexp = 0\<rparr>
          \<lparr>dsign = False, dint = dint golden_ratio_10 ^ nat (- n),
           dexp = dexp golden_ratio_10 * (- n)\<rparr>)"

record validator =
  address :: string
  public_key :: string
  stake :: int
  weight :: decimal
  fibonacci_index :: int
  is_active :: bool
  last_validated :: int
  performance_score :: decimal

text \<open>
  The engine. \<^verbatim>\<open>validators\<close> is a Python dict, which iterates in insertion order: an
  association list in that order, a new key appended at the end and an existing key
  updated in place.
\<close>

record consensus =
  network_id :: string
  validators :: "(string \<times> validator) list"
  current_leader_index :: int
  round_number :: int
  block_time :: int
  required_confirmations :: int

text \<open>\<^verbatim>\<open>PhiConsensus.__init__\<close>\<close>

definition init_consensus :: "string \<Rightarrow> dec_error + consensus" where
  "init_consensus nid =
     bind_err (dec_mul golden_ratio_2 (Decimal 3)) (\<lambda>c.
       Inr \<lparr>network_id = nid, validators = [], current_leader_index = 0, round_number = 0,
            block_time = 5, required_confirmations = dec_to_int c\<rparr>)"

text \<open>\<^verbatim>\<open>Validator.get_priority_score\<close>\<close>

definition get_priority_score :: "validator \<Rightarrow> int \<Rightarrow> dec_error + decimal" where
  "get_priority_score v block_height =
     (let fib_number = fibonacci (block_height mod 100) in
      bind_err (dec_mul (Decimal (stake v)) (weight v)) (\<lambda>sw.
      bind_err (dec_mul sw (performance_score v)) (\<lambda>base_priority.
      bind_err (dec_div (Decimal fib_number) (Decimal 1000)) (\<lambda>modulation.
      bind_err (golden_pow (fibonacci_index v mod 10)) (\<lambda>golden_scaling.
      bind_err (dec_mul base_priority modulation) (\<lambda>bm.
      dec_mul bm golden_scaling))))))"

text \<open>
  \<^verbatim>\<open>PhiConsensus.add_validator\<close>. The result is the returned flag and the engine after
  the call; \<open>None\<close> for \<^verbatim>\<open>fibonacci_index\<close> is the omitted argument.
\<close>

definition add_validator ::
  "consensus \<Rightarrow> string \<Rightarrow> string \<Rightarrow> int \<Rightarrow> int option \<Rightarrow> dec_error + (bool \<times> consensus)" where
  "add_validator st addr pk stk idx_opt =
     (if map_of (validators st) addr \<noteq> None then Inr (False, st)
      else
        let idx = (case idx_opt of None \<Rightarrow> int (length (validators st)) | Some i \<Rightarrow> i) in
        bind_err (golden_pow idx) (\<lambda>w.
          let v = \<lparr>address = addr, public_key = pk, stake = stk, weight = w,
                   fibonacci_index = idx, is_active = True, last_validated = 0,
                   performance_score = \<lparr>dsign = False, dint = 10, dexp = - 1\<rparr>\<rparr>
          in Inr (True, st\<lparr>validators := AList.update addr v (validators st)\<rparr>)))"

text \<open>\<^verbatim>\<open>[v for v in self.validators.values() if v.is_active]\<close>\<close>

definition active_validators :: "consensus \<Rightarrow> validator list" where
  "active_validators st = filter is_active (map snd (validators st))"

text \<open>
  The loop of \<^verbatim>\<open>select_leader\<close> that sums the priorities, with the running total and
  the list of (validator, priority) pairs built so far.
\<close>

fun priority_loop ::
  "validator list \<Rightarrow> int \<Rightarrow> decimal \<Rightarrow> (validator \<times> decimal) list \<Rightarrow>
     dec_error + (decimal \<times> (validator \<times> decimal) list)" where
  "priority_loop [] block_height total_priority priorities = Inr (total_priority, priorities)"
| "priority_loop (v # vs) block_height total_priority priorities =
     bind_err (get_priority_score v block_height) (\<lambda>priority.
     bind_err (dec_add total_priority priority) (\<lambda>total'.
       priority_loop vs block_height total' (priorities @ [(v, priority)])))"

text \<open>
  \<^verbatim>\<open>PhiConsensus.select_leader\<close>. The result is the returned validator (\<open>None\<close> for
  Python's \<^verbatim>\<open>None\<close>) and the engine after the call.
\<close>

definition select_leader ::
  "consensus \<Rightarrow> int \<Rightarrow> dec_error + (validator option \<times> consensus)" where
  "select_leader st block_height =
     (if validators st = [] then Inr (None, st)
      else
        (case active_validators st of
           [] \<Rightarrow> Inr (None, st)
         | first # rest \<Rightarrow>
             bind_err (priority_loop (first # rest) block_height
                         \<lparr>dsign = False, dint = 0, dexp = 0\<rparr> []) (\<lambda>(total_priority, priorities).
               if dec_is_zero total_priority then Inr (Some first, st)
               else
                 let n = int (length (first # rest));
                     fib_number = fibonacci (block_height mod n);
                     selection_index = fib_number mod n;
                     selected_validator = (first # rest) ! nat selection_index
                 in Inr (Some selected_validator,
                         st\<lparr>current_leader_index := selection_index,
                            round_number := round_number st + 1\<rparr>))))"

text \<open>
  The block handed to \<^verbatim>\<open>validate_block\<close> is a dict; its entries are typed as the
  interface gives them, an absent key being \<open>None\<close>.
\<close>

record math_proof =
  proof_fibonacci_number :: "int option"
  proof_fibonacci_index :: "int option"

record block_header =
  golden_ratio_hash :: "string option"

record block_data =
  height :: "int option"
  mathematical_proof :: "math_proof option"
  header :: "block_header option"
  signature :: "string option"

text \<open>\<^verbatim>\<open>PhiConsensus._verify_fibonacci_proof\<close>\<close>

definition verify_fibonacci_proof :: "math_proof \<Rightarrow> block_data \<Rightarrow> bool" where
  "verify_fibonacci_proof mp blk =
     (let block_height = (case height blk of None \<Rightarrow> 0 | Some h \<Rightarrow> h);
          expected_fib = fibonacci (block_height mod 1000)
      in if proof_fibonacci_number mp \<noteq> Some expected_fib then False
         else
           let expected_index = block_height mod 1000
           in if proof_fibonacci_index mp \<noteq> Some expected_index then False else True)"

text \<open>\<^verbatim>\<open>PhiConsensus._verify_golden_hash\<close>\<close>

definition verify_golden_hash :: "block_data \<Rightarrow> bool" where
  "verify_golden_hash blk =
     (let golden_hash =
            (case header blk of
               None \<Rightarrow> []
             | Some h \<Rightarrow> (case golden_ratio_hash h of None \<Rightarrow> [] | Some s \<Rightarrow> s))
      in if golden_hash = [] \<or> length golden_hash \<noteq> 64 then False else True)"

text \<open>\<^verbatim>\<open>PhiConsensus._verify_signature\<close>: the placeholder accepts every block.\<close>

definition verify_signature :: "block_data \<Rightarrow> string \<Rightarrow> bool" where
  "verify_signature blk pk =
     (let sg = (case signature blk of None \<Rightarrow> [] | Some s \<Rightarrow> s)
      in if sg = [] then True else True)"

text \<open>
  \<^verbatim>\<open>PhiConsensus._update_validator_performance\<close>; \<open>now\<close> is \<^verbatim>\<open>int(time.time())\<close>.
  The validator object is mutated in place, so its position in the dict is kept.
\<close>

definition update_validator_performance ::
  "consensus \<Rightarrow> string \<Rightarrow> bool \<Rightarrow> int \<Rightarrow> dec_error + consensus" where
  "update_validator_performance st addr success now =
     (case map_of (validators st) addr of
        None \<Rightarrow> Inr st
      | Some v \<Rightarrow>
          bind_err
            (if success then
               bind_err (dec_mul (performance_score v) \<lparr>dsign = False, dint = 95, dexp = - 2\<rparr>) (\<lambda>m.
               bind_err (dec_add m \<lparr>dsign = False, dint = 5, dexp = - 2\<rparr>) (\<lambda>new_score.
                 Inr (dec_min new_score \<lparr>dsign = False, dint = 10, dexp = - 1\<rparr>)))
             else dec_mul (performance_score v) \<lparr>dsign = False, dint = 9, dexp = - 1\<rparr>)
            (\<lambda>score.
               Inr (st\<lparr>validators :=
                      AList.update addr (v\<lparr>performance_score := score, last_validated := now\<rparr>)
                        (validators st)\<rparr>)))"

text \<open>\<^verbatim>\<open>PhiConsensus.validate_block\<close>\<close>

definition validate_block ::
  "consensus \<Rightarrow> block_data \<Rightarrow> string \<Rightarrow> int \<Rightarrow> dec_error + (bool \<times> consensus)" where
  "validate_block st blk proposer_address now =
     (case map_of (validators st) proposer_address of
        None \<Rightarrow> Inr (False, st)
      | Some proposer \<Rightarrow>
          if \<not> is_active proposer then Inr (False, st)
          else
            let mp = (case mathematical_proof blk of
                        None \<Rightarrow> \<lparr>proof_fibonacci_number = None, proof_fibonacci_index = None\<rparr>
                      | Some p \<Rightarrow> p)
            in if \<not> verify_fibonacci_proof mp blk then Inr (False, st)
               else if \<not> verify_golden_hash blk then Inr (False, st)
               else if \<not> verify_signature blk (public_key proposer) then Inr (False, st)
               else
                 bind_err (update_validator_performance st proposer_address True now) (\<lambda>st'.
                   Inr (True, st')))"

text \<open>\<^verbatim>\<open>PhiConsensus.get_validator_rotation_schedule\<close>\<close>

definition get_validator_rotation_schedule :: "consensus \<Rightarrow> int \<Rightarrow> (int \<times> string) list" where
  "get_validator_rotation_schedule st blocks_ahead =
     (let active = map address (active_validators st)
      in if active = [] then []
         else
           map (\<lambda>k. let block_offset = int k;
                        fib_num = fibonacci (block_offset mod 20);
                        validator_index = fib_num mod int (length active)
                    in (block_offset, active ! nat validator_index))
             [0 ..< nat blocks_ahead])"

text \<open>
  The loop of \<^verbatim>\<open>calculate_rewards\<close> over \<^verbatim>\<open>enumerate(active_validators)\<close>, with the
  dict of rewards built so far.
\<close>

fun rewards_loop ::
  "(nat \<times> validator) list \<Rightarrow> int list \<Rightarrow> (string \<times> int) list \<Rightarrow> (string \<times> int) list" where
  "rewards_loop [] amounts rewards = rewards"
| "rewards_loop ((i, v) # ivs) amounts rewards =
     rewards_loop ivs amounts
       (AList.update (address v) (if i < length amounts then amounts ! i else 0) rewards)"

text \<open>\<^verbatim>\<open>PhiConsensus.calculate_rewards\<close>\<close>

definition calculate_rewards ::
  "consensus \<Rightarrow> int \<Rightarrow> int \<Rightarrow> dec_error + (string \<times> int) list" where
  "calculate_rewards st block_height total_reward =
     (let active = active_validators st
      in if active = [] then Inr []
         else
           bind_err (fibonacci_distribution total_reward (int (length active))) (\<lambda>amounts.
             Inr (rewards_loop (enumerate 0 active) amounts [])))"

section \<open>Registry well-formedness, the canonical list and sequences of calls\<close>

text \<open>
  What a dict with \<^verbatim>\<open>add_validator\<close> as its only writer of keys guarantees: keys are
  distinct, and every validator is stored under its own address.
\<close>

definition wf_registry :: "consensus \<Rightarrow> bool" where
  "wf_registry st =
     (distinct (map fst (validators st)) \<and>
      list_all (\<lambda>(k, v). address v = k) (validators st))"

text \<open>
  Modelled from the spec: \<^verbatim>\<open>canonical_active_list()\<close>, which the source does not have
  (no function of the engine sorts). The spec describes it as the active validators
  sorted by \<^verbatim>\<open>address\<close> ascending.
\<close>

definition canonical_active_list :: "consensus \<Rightarrow> validator list" where
  "canonical_active_list st = sort_key address (active_validators st)"

text \<open>
  The calls the engine offers. \<^verbatim>\<open>generate_consensus_report\<close> only reads the engine
  (its output, built from floats, is not modelled).
\<close>

datatype engine_op =
    Add_validator string string int "int option"
  | Select_leader int
  | Validate_block block_data string int
  | Rotation_schedule int
  | Calculate_rewards int int
  | Consensus_report

text \<open>
  The engine after one call. A call that raises leaves the engine as it was: in each
  method every operation that can raise comes before the first assignment to the engine.
\<close>

fun exec_op :: "engine_op \<Rightarrow> consensus \<Rightarrow> consensus" where
  "exec_op (Add_validator addr pk stk idx_opt) st =
     (case add_validator st addr pk stk idx_opt of Inl err \<Rightarrow> st | Inr (ok, st') \<Rightarrow> st')"
| "exec_op (Select_leader block_height) st =
     (case select_leader st block_height of Inl err \<Rightarrow> st | Inr (leader, st') \<Rightarrow> st')"
| "exec_op (Validate_block blk proposer_address now) st =
     (case validate_block st blk proposer_address now of Inl err \<Rightarrow> st | Inr (ok, st') \<Rightarrow> st')"
| "exec_op (Rotation_schedule blocks_ahead) st = st"
| "exec_op (Calculate_rewards block_height total_reward) st = st"
| "exec_op Consensus_report st = st"

fun run_ops :: "engine_op list \<Rightarrow> consensus \<Rightarrow> consensus" where
  "run_ops [] st = st"
| "run_ops (x # xs) st = run_ops xs (exec_op x st)"

text \<open>Decimal value comparison \<open>a \<le> b\<close>, and the constant \<^verbatim>\<open>Decimal('1.0')\<close>.\<close>

definition dec_le :: "decimal \<Rightarrow> decimal \<Rightarrow> bool" where
  "dec_le a b = (\<not> dec_less b a)"

definition dec_one :: decimal where
  "dec_one = \<lparr>dsign = False, dint = 10, dexp = - 1\<rparr>"

text \<open>
  The success branch of \<^verbatim>\<open>_update_validator_performance\<close> as a function of the old
  score: \<^verbatim>\<open>min(old * Decimal('0.95') + Decimal('0.05'), Decimal('1.0'))\<close>.
\<close>

definition success_score :: "decimal \<Rightarrow> dec_error + decimal" where
  "success_score old =
     bind_err (dec_mul old \<lparr>dsign = False, dint = 95, dexp = - 2\<rparr>) (\<lambda>m.
     bind_err (dec_add m \<lparr>dsign = False, dint = 5, dexp = - 2\<rparr>) (\<lambda>new_score.
       Inr (dec_min new_score \<lparr>dsign = False, dint = 10, dexp = - 1\<rparr>)))"

text \<open>The invariant that no performance score exceeds 1.0.\<close>

definition scores_le_one :: "consensus \<Rightarrow> bool" where
  "scores_le_one st = list_all (\<lambda>(k, v). dec_le (performance_score v) dec_one) (validators st)"

text \<open>
  The total priority that \<^verbatim>\<open>select_leader\<close> computes over the active validators
  before it tests \<^verbatim>\<open>total_priority == 0\<close>.
\<close>

definition total_priority :: "consensus \<Rightarrow> int \<Rightarrow> dec_error + decimal" where
  "total_priority st block_height =
     bind_err (priority_loop (active_validators st) block_height
                 \<lparr>dsign = False, dint = 0, dexp = 0\<rparr> []) (\<lambda>(t, priorities). Inr t)"

text \<open>The rational value of a decimal.\<close>

definition dec_val :: "decimal \<Rightarrow> rat" where
  "dec_val d =
     (if dsign d then - 1 else 1) * of_nat (dint d) *
     (if 0 \<le> dexp d then 10 ^ nat (dexp d) else 1 / 10 ^ nat (- dexp d))"

text \<open>
  The representations of 1 that a performance score takes: \<^verbatim>\<open>Decimal('1.0')\<close> at
  registration, then two more digits with every success update until the context
  precision is reached.
\<close>

definition unit_score :: "nat \<Rightarrow> decimal" where
  "unit_score k = \<lparr>dsign = False, dint = 10 ^ k, dexp = - int k\<rparr>"

definition is_unit_score :: "decimal \<Rightarrow> bool" where
  "is_unit_score s = (s \<in> unit_score ` {1 .. 49})"

definition unit_scores :: "consensus \<Rightarrow> bool" where
  "unit_scores st = list_all (\<lambda>(k, v). is_unit_score (performance_score v)) (validators st)"

section \<open>Example engines\<close>

definition engine0 :: consensus where
  "engine0 =
     \<lparr>network_id = ''phi-mainnet-1'', validators = [], current_leader_index = 0,
      round_number = 0, block_time = 5, required_confirmations = 4\<rparr>"

definition alice :: validator where
  "alice =
     \<lparr>address = ''alice'', public_key = ''pk_a'', stake = 10,
      weight = \<lparr>dsign = False, dint = 1, dexp = 0\<rparr>, fibonacci_index = 0,
      is_active = True, last_validated = 0,
      performance_score = \<lparr>dsign = False, dint = 10, dexp = - 1\<rparr>\<rparr>"

definition bob :: validator where
  "bob =
     \<lparr>address = ''bob'', public_key = ''pk_b'', stake = 20,
      weight = \<lparr>dsign = False, dint = 16180339887, dexp = - 10\<rparr>, fibonacci_index = 1,
      is_active = True, last_validated = 0,
      performance_score = \<lparr>dsign = False, dint = 10, dexp = - 1\<rparr>\<rparr>"

definition carol :: validator where
  "carol =
     \<lparr>address = ''carol'', public_key = ''pk_c'', stake = 30,
      weight = \<lparr>dsign = False, dint = 261803398858843172769, dexp = - 20\<rparr>,
      fibonacci_index = 2, is_active = True, last_validated = 0,
      performance_score = \<lparr>dsign = False, dint = 10, dexp = - 1\<rparr>\<rparr>"

definition engine_ab :: consensus where
  "engine_ab = engine0\<lparr>validators := [(''alice'', alice), (''bob'', bob)]\<rparr>"

definition engine_ba :: consensus where
  "engine_ba = engine0\<lparr>validators := [(''bob'', bob), (''alice'', alice)]\<rparr>"

definition engine_abc :: consensus where
  "engine_abc = engine0\<lparr>validators := [(''alice'', alice), (''bob'', bob), (''carol'', carol)]\<rparr>"

text \<open>A block for height 1 that carries the expected proof and a 64-character hash.\<close>

definition block1 :: block_data where
  "block1 =
     \<lparr>height = Some 1,
      mathematical_proof = Some \<lparr>proof_fibonacci_number = Some 1, proof_fibonacci_index = Some 1\<rparr>,
      header = Some \<lparr>golden_ratio_hash = Some (replicate 64 CHR ''a'')\<rparr>,
      signature = Some ''test_signature''\<rparr>"

section \<open>Auxiliary definitions for evaluation\<close>

text \<open>
  Counting digits upwards, by comparison with powers of ten: equal to \<open>ndigits\<close>, and
  cheap to evaluate on numerals.
\<close>

function digits_upto :: "nat \<Rightarrow> nat \<Rightarrow> nat \<Rightarrow> nat" where
  "digits_upto n k p = (if p = 0 \<or> n < p then k else digits_upto n (k + 1) (p * 10))"
  by pat_completeness auto
termination
  by (relation "measure (\<lambda>(n, k, p). n + 1 - p)") auto

declare digits_upto.simps [simp del]

section \<open>Evaluation of the decimal operations\<close>

lemma ndigits_eq:
  "0 < k \<Longrightarrow> 10 ^ (k - 1) \<le> n \<or> k = 1 \<Longrightarrow> n < 10 ^ k \<Longrightarrow> ndigits n = k"
proof (induction k arbitrary: n)
  case 0
  then show ?case by simp
next
  case (Suc j)
  show ?case
  proof (cases j)
    case 0
    with Suc.prems show ?thesis by (simp add: ndigits.simps)
  next
    case (Suc i)
    with Suc.prems have lo: "10 ^ j \<le> n" and hi: "n < 10 ^ Suc j" by auto
    have "(10::nat) \<le> 10 ^ j" using Suc by simp
    with lo have "\<not> n < 10" by linarith
    then have "ndigits n = ndigits (n div 10) + 1" by (simp add: ndigits.simps)
    moreover have "ndigits (n div 10) = j"
    proof (rule Suc.IH)
      show "0 < j" using Suc by simp
      from lo Suc show "10 ^ (j - 1) \<le> n div 10 \<or> j = 1" by auto
      from hi show "n div 10 < 10 ^ j" by auto
    qed
    ultimately show ?thesis by simp
  qed
qed

lemma digits_upto_ndigits:
  "0 < k \<Longrightarrow> 10 ^ (k - 1) \<le> n \<or> k = 1 \<Longrightarrow> digits_upto n k (10 ^ k) = ndigits n"
proof (induction n k "(10::nat) ^ k" arbitrary: k rule: digits_upto.induct)
  case (1 n k)
  show ?case
  proof (cases "n < 10 ^ k")
    case True
    with 1 show ?thesis by (simp add: digits_upto.simps ndigits_eq)
  next
    case False
    have "digits_upto n (k + 1) (10 ^ (k + 1)) = ndigits n"
      by (rule 1(1)) (use False 1(2) in auto)
    with False show ?thesis
      by (subst digits_upto.simps) (simp add: mult.commute)
  qed
qed

lemma ndigits_numeral [simp]: "ndigits (numeral w) = digits_upto (numeral w) 1 10"
  using digits_upto_ndigits [of 1 "numeral w"] by simp

lemma digits_upto_numeral [simp]:
  "digits_upto (numeral w) k (numeral v) =
     (if (numeral w :: nat) < numeral v then k else digits_upto (numeral w) (k + 1) (numeral v * 10))"
  by (subst digits_upto.simps) simp

lemma ndigits_0 [simp]: "ndigits 0 = 1" by (simp add: ndigits.simps)
lemma ndigits_1 [simp]: "ndigits 1 = 1" by (simp add: ndigits.simps)
lemma ndigits_Suc_0 [simp]: "ndigits (Suc 0) = 1" by (simp add: ndigits.simps)

lemma strip_zeros_stop: "\<not> (e < ideal \<and> c mod 10 = 0) \<Longrightarrow> strip_zeros c e ideal = (c, e)"
  by (subst strip_zeros.simps) auto

lemma strip_zeros_pow10:
  "e + int j \<le> ideal \<Longrightarrow> strip_zeros (c * 10 ^ j) e ideal = strip_zeros c (e + int j) ideal"
proof (induction j arbitrary: e)
  case 0
  then show ?case by simp
next
  case (Suc j)
  have "strip_zeros (c * 10 ^ Suc j) e ideal = strip_zeros (c * 10 ^ j) (e + 1) ideal"
    using Suc.prems by (subst strip_zeros.simps) simp
  also have "\<dots> = strip_zeros c (e + 1 + int j) ideal"
    by (rule Suc.IH) (use Suc.prems in simp)
  finally show ?case by (simp add: add.assoc)
qed

lemma nat_divmod_eq: "a = b * q + r \<Longrightarrow> r < b \<Longrightarrow> a div b = q \<and> a mod b = (r::nat)"
  by simp

lemma bind_err_Inr [simp]: "bind_err (Inr x) f = f x" by (simp add: bind_err_def)
lemma bind_err_Inl [simp]: "bind_err (Inl e) f = Inl e" by (simp add: bind_err_def)

lemmas dec_consts = prec_def Etop_def Etiny_def Emax_def Emin_def
lemma Decimal_sel [simp]:
  "dsign (Decimal n) = (n < 0)" "dint (Decimal n) = nat \<bar>n\<bar>" "dexp (Decimal n) = 0"
  by (simp_all add: Decimal_def)

lemmas dec_eval = dec_mul_def dec_add_def dec_rescale_def normalize_ops_def
  dec_fix_def round_up_def dec_to_int_def dec_is_zero_def dec_consts Let_def

section \<open>PhiMath: Fibonacci numbers and the distribution loop\<close>

lemma fib_loop_nonneg: "0 \<le> a \<Longrightarrow> 0 \<le> b \<Longrightarrow> 0 \<le> fib_loop k a b"
  by (induction k arbitrary: a b) auto

lemma fibonacci_nonneg: "0 \<le> fibonacci n"
  by (simp add: fibonacci_def fib_loop_nonneg)

lemma fibonacci_1: "fibonacci 1 = 1"
  by (simp add: fibonacci_def)

lemma fib_loop_step: "fib_loop (Suc (Suc k)) a b = fib_loop (Suc k) a b + fib_loop k a b"
proof (induction k arbitrary: a b)
  case 0
  then show ?case by simp
next
  case (Suc k)
  have "fib_loop (Suc (Suc (Suc k))) a b = fib_loop (Suc (Suc k)) b (a + b)"
    by simp
  also have "\<dots> = fib_loop (Suc k) b (a + b) + fib_loop k b (a + b)"
    by (rule Suc.IH)
  also have "\<dots> = fib_loop (Suc (Suc k)) a b + fib_loop (Suc k) a b"
    by simp
  finally show ?case .
qed

lemma fibonacci_loop: "1 \<le> m \<Longrightarrow> fibonacci m = fib_loop (nat (m - 1)) 0 1"
  by (simp add: fibonacci_def)

lemma fibonacci_recurrence:
  assumes "2 \<le> n"
  shows "fibonacci n = fibonacci (n - 1) + fibonacci (n - 2)"
proof (cases "n = 2")
  case True
  then show ?thesis by (simp add: fibonacci_def)
next
  case False
  with assms have n: "3 \<le> n" by simp
  then obtain k where k: "nat (n - 3) = k" by simp
  with n have k1: "nat (n - 1) = Suc (Suc k)" and k2: "nat (n - 1 - 1) = Suc k"
    and k3: "nat (n - 2 - 1) = k"
    by linarith+
  from n have "fibonacci n = fib_loop (Suc (Suc k)) 0 1"
    by (simp add: fibonacci_loop k1)
  moreover from n have "fibonacci (n - 1) = fib_loop (Suc k) 0 1"
    by (simp only: fibonacci_loop k2)
  moreover from n have "fibonacci (n - 2) = fib_loop k 0 1"
    by (simp only: fibonacci_loop k3)
  ultimately show ?thesis
    by (simp only: fib_loop_step)
qed

lemma golden_ratio_10_nearest:
  "\<bar>(1 + sqrt 5) / 2 - real (dint golden_ratio_10) / 10 ^ 10\<bar> < 1 / (2 * 10 ^ 10)"
proof -
  have lo: "22360679774 / 10 ^ 10 < sqrt 5"
    by (rule real_less_rsqrt) (simp add: power_divide)
  have hi: "sqrt 5 < 22360679775 / 10 ^ 10"
    by (rule real_less_lsqrt) (simp_all add: power_divide)
  from lo hi show ?thesis
    by (simp add: golden_ratio_10_def abs_less_iff field_simps)
qed

lemma length_fibonacci_sequence: "length (fibonacci_sequence start count) = nat count"
  by (simp add: fibonacci_sequence_def)

lemma nth_fibonacci_sequence:
  "i < nat count \<Longrightarrow> fibonacci_sequence start count ! i = fibonacci (start + int i)"
  by (simp add: fibonacci_sequence_def)

lemma sum_fibonacci_sequence_pos:
  assumes "1 \<le> count"
  shows "0 < sum_list (fibonacci_sequence 1 count)"
proof -
  obtain m where m: "nat count = Suc m"
    using assms by (cases "nat count") auto
  have "fibonacci_sequence 1 count =
          fibonacci 1 # map (\<lambda>k. fibonacci (1 + int k)) [Suc 0 ..< Suc m]"
    by (simp add: fibonacci_sequence_def m upt_conv_Cons del: upt_Suc)
  moreover have "0 \<le> sum_list (map (\<lambda>k. fibonacci (1 + int k)) [Suc 0 ..< Suc m])"
    by (rule sum_list_nonneg) (auto simp: fibonacci_nonneg)
  ultimately show ?thesis
    by (simp add: fibonacci_1)
qed

lemma distribute_loop_inv:
  "distribute_loop fs tf tr rewards remaining = Inr (rs, rm) \<Longrightarrow>
     \<exists>xs. rs = rewards @ xs \<and> length xs = length fs \<and> rm = remaining - sum_list xs"
proof (induction fs arbitrary: rewards remaining)
  case Nil
  then show ?case by simp
next
  case (Cons f fs)
  from Cons.prems obtain share p where
    rec: "distribute_loop fs tf tr (rewards @ [dec_to_int p]) (remaining - dec_to_int p) = Inr (rs, rm)"
    by (auto simp: Let_def split: sum.splits)
  from Cons.IH [OF rec] obtain xs where
    xs: "rs = (rewards @ [dec_to_int p]) @ xs" "length xs = length fs"
        "rm = remaining - dec_to_int p - sum_list xs"
    by blast
  show ?case
    by (rule exI [of _ "dec_to_int p # xs"]) (use xs in simp)
qed

lemma distribute_loop_nth:
  "distribute_loop fs tf tr rewards remaining = Inr (rs, rm) \<Longrightarrow> i < length fs \<Longrightarrow>
     \<exists>share p. dec_div (Decimal (fs ! i)) (Decimal tf) = Inr share \<and>
               dec_mul share (Decimal tr) = Inr p \<and>
               rs ! (length rewards + i) = dec_to_int p"
proof (induction fs arbitrary: rewards remaining i)
  case Nil
  then show ?case by simp
next
  case (Cons f fs)
  from Cons.prems(1) obtain share p where
    sh: "dec_div (Decimal f) (Decimal tf) = Inr share" "dec_mul share (Decimal tr) = Inr p" and
    rec: "distribute_loop fs tf tr (rewards @ [dec_to_int p]) (remaining - dec_to_int p) = Inr (rs, rm)"
    by (auto simp: Let_def split: sum.splits)
  show ?case
  proof (cases i)
    case 0
    from distribute_loop_inv [OF rec] obtain xs where "rs = (rewards @ [dec_to_int p]) @ xs"
      by blast
    then have "rs ! length rewards = dec_to_int p"
      by (simp add: nth_append)
    with sh 0 show ?thesis by simp
  next
    case (Suc j)
    with Cons.prems(2) have "j < length fs" by simp
    from Cons.IH [OF rec this] Suc show ?thesis by simp
  qed
qed

lemma fibonacci_distribution_unfold:
  assumes "1 \<le> count" and "fibonacci_distribution tot count = Inr shares"
  shows "\<exists>raw. distribute_loop (fibonacci_sequence 1 count) (sum_list (fibonacci_sequence 1 count))
                  tot [] tot = Inr (raw, tot - sum_list raw) \<and>
               length raw = nat count \<and>
               shares = (hd raw + (tot - sum_list raw)) # tl raw"
proof -
  let ?fs = "fibonacci_sequence 1 count"
  have pos: "sum_list ?fs \<noteq> 0"
    using sum_fibonacci_sequence_pos [OF assms(1)] by simp
  from assms pos obtain raw rm where
    loop: "distribute_loop ?fs (sum_list ?fs) tot [] tot = Inr (raw, rm)" and
    sh: "shares = (case raw of [] \<Rightarrow> [] | r # rs \<Rightarrow> (r + rm) # rs)"
    by (auto simp: fibonacci_distribution_def Let_def split: sum.splits list.splits)
  from distribute_loop_inv [OF loop] have
    len: "length raw = length ?fs" and rm: "rm = tot - sum_list raw"
    by auto
  from len assms(1) have "raw \<noteq> []"
    by (auto simp: length_fibonacci_sequence)
  then obtain r rs where raw: "raw = r # rs"
    by (cases raw) auto
  show ?thesis
    using loop sh len rm raw by (auto simp: length_fibonacci_sequence)
qed

lemma fibonacci_distribution_sum:
  assumes "1 \<le> count" and "fibonacci_distribution tot count = Inr shares"
  shows "sum_list shares = tot \<and> length shares = nat count"
proof -
  from fibonacci_distribution_unfold [OF assms] obtain raw where
    len: "length raw = nat count" and sh: "shares = (hd raw + (tot - sum_list raw)) # tl raw"
    by blast
  from len assms(1) obtain r rs where raw: "raw = r # rs"
    by (cases raw) auto
  show ?thesis
    using sh len raw by simp
qed


section \<open>Digit counts and the exponent range\<close>

subsection \<open>Digit counts\<close>

lemma ndigits_pos: "1 \<le> ndigits n"
  by (subst ndigits.simps) simp

lemma ndigits_upper: "n < 10 ^ ndigits n"
proof (induction n rule: ndigits.induct)
  case (1 n)
  show ?case
  proof (cases "n < 10")
    case True
    then show ?thesis by (subst ndigits.simps) simp
  next
    case False
    with 1 have "n div 10 < 10 ^ ndigits (n div 10)" by simp
    then have "n < 10 * 10 ^ ndigits (n div 10)" by linarith
    with False show ?thesis by (subst ndigits.simps) simp
  qed
qed

lemma ndigits_lower: "n \<noteq> 0 \<Longrightarrow> 10 ^ (ndigits n - 1) \<le> n"
proof (induction n rule: ndigits.induct)
  case (1 n)
  show ?case
  proof (cases "n < 10")
    case True
    with 1(2) show ?thesis by (subst ndigits.simps) simp
  next
    case False
    then have "n div 10 \<noteq> 0" by simp
    with 1(1) False have "10 ^ (ndigits (n div 10) - 1) \<le> n div 10" by simp
    then have "10 * 10 ^ (ndigits (n div 10) - 1) \<le> n" by linarith
    moreover have "10 * 10 ^ (ndigits (n div 10) - 1) = (10::nat) ^ ndigits (n div 10)"
      using ndigits_pos [of "n div 10"] by (cases "ndigits (n div 10)") simp_all
    ultimately show ?thesis
      using False by (subst ndigits.simps) simp
  qed
qed

lemma ndigits_le_iff: "1 \<le> k \<Longrightarrow> ndigits n \<le> k \<longleftrightarrow> n < 10 ^ k"
proof
  assume "ndigits n \<le> k"
  then have "(10::nat) ^ ndigits n \<le> 10 ^ k" by (simp add: power_increasing)
  with ndigits_upper [of n] show "n < 10 ^ k" by linarith
next
  assume k: "1 \<le> k" and lt: "n < 10 ^ k"
  show "ndigits n \<le> k"
  proof (cases "n = 0")
    case True
    with k show ?thesis by (simp add: ndigits.simps)
  next
    case False
    from ndigits_lower [OF False] lt have "(10::nat) ^ (ndigits n - 1) < 10 ^ k" by linarith
    then have "ndigits n - 1 < k" by (simp add: power_strict_increasing_iff)
    then show ?thesis by linarith
  qed
qed

lemma ndigits_mono: "a \<le> b \<Longrightarrow> ndigits a \<le> ndigits b"
  using ndigits_upper [of b] ndigits_pos [of b] by (simp add: ndigits_le_iff)

lemma ndigits_mult_le: "ndigits (a * b) \<le> ndigits a + ndigits b"
proof -
  have "a * b < 10 ^ ndigits a * 10 ^ ndigits b"
    using ndigits_upper [of a] ndigits_upper [of b] by (simp add: mult_strict_mono)
  then have "a * b < 10 ^ (ndigits a + ndigits b)"
    by (simp add: power_add)
  moreover have "1 \<le> ndigits a + ndigits b"
    using ndigits_pos [of a] by linarith
  ultimately show ?thesis by (simp add: ndigits_le_iff)
qed

lemma ndigits_div10: "c \<noteq> 0 \<Longrightarrow> c mod 10 = 0 \<Longrightarrow> ndigits c = ndigits (c div 10) + 1"
  by (subst ndigits.simps) auto

subsection \<open>When the decimal operations return\<close>

lemma dec_fix_returns:
  assumes adj: "int (ndigits (dint d)) + dexp d \<le> Etop + 49"
  shows "\<exists>d'. dec_fix d = Inr d' \<and>
           int (ndigits (dint d')) + dexp d' \<le>
             max (int (ndigits (dint d)) + dexp d + 1) (Etiny + 51)"
proof (cases "dint d = 0")
  case True
  then have "dec_fix d = Inr (d\<lparr>dexp := min (max (dexp d) Etiny) Emax\<rparr>)"
    by (simp add: dec_fix_def)
  moreover have "int (ndigits (dint (d\<lparr>dexp := min (max (dexp d) Etiny) Emax\<rparr>))) +
                   dexp (d\<lparr>dexp := min (max (dexp d) Etiny) Emax\<rparr>) \<le>
                 max (int (ndigits (dint d)) + dexp d + 1) (Etiny + 51)"
    using True by (simp add: ndigits.simps dec_consts)
  ultimately show ?thesis by blast
next
  case False
  define c where "c = dint d"
  define e where "e = dexp d"
  define n where "n = ndigits c"
  define exp_min where "exp_min = (if int n + e - 50 < Etiny then Etiny else int n + e - 50)"
  define k where "k = nat (exp_min - e)"
  define q where "q = c div 10 ^ k"
  have adj': "int n + e \<le> 999999"
    using adj by (simp add: n_def c_def e_def dec_consts)
  have no_ovf: "\<not> int n + e - 50 > Etop"
    using adj' by (simp add: dec_consts)
  have em: "exp_min + 1 \<le> Etop" "int n + e - 50 \<le> exp_min" "50 + exp_min \<le> max (int n + e) (Etiny + 50)"
    using adj' by (simp_all add: exp_min_def dec_consts)
  have unf: "dec_fix d =
      (if int n + e - 50 > Etop then Inl Overflow
       else if e < exp_min then
         (if round_up c k then
            (if int (ndigits (q + 1)) > 50 then
               (if exp_min + 1 > Etop then Inl Overflow
                else Inr \<lparr>dsign = dsign d, dint = (q + 1) div 10, dexp = exp_min + 1\<rparr>)
             else Inr \<lparr>dsign = dsign d, dint = q + 1, dexp = exp_min\<rparr>)
          else Inr \<lparr>dsign = dsign d, dint = q, dexp = exp_min\<rparr>)
       else Inr d)"
    using False
    by (simp only: dec_fix_def Let_def prec_def c_def e_def n_def exp_min_def k_def q_def
          if_False)
  show ?thesis
  proof (cases "e < exp_min")
    case False
    then have "dec_fix d = Inr d"
      using no_ovf by (simp add: unf)
    then show ?thesis by auto
  next
    case True
    then have k: "int k = exp_min - e" "1 \<le> k"
      by (simp_all add: k_def)
    with em(2) have "n \<le> k + 50" by linarith
    then have "(10::nat) ^ n \<le> 10 ^ (k + 50)"
      by (simp add: power_increasing)
    with ndigits_upper [of c] have "c < 10 ^ 50 * 10 ^ k"
      by (simp add: n_def power_add mult.commute)
    then have q: "q < 10 ^ 50"
      unfolding q_def by (rule less_mult_imp_div_less)
    then have ndq: "ndigits q \<le> 50"
      by (simp add: ndigits_le_iff)
    from q have "(q + 1) div 10 < 10 ^ 50" by simp
    then have ndc: "ndigits ((q + 1) div 10) \<le> 50"
      by (simp add: ndigits_le_iff)
    have rd: "dec_fix d =
        (if round_up c k then
           (if int (ndigits (q + 1)) > 50 then
              Inr \<lparr>dsign = dsign d, dint = (q + 1) div 10, dexp = exp_min + 1\<rparr>
            else Inr \<lparr>dsign = dsign d, dint = q + 1, dexp = exp_min\<rparr>)
         else Inr \<lparr>dsign = dsign d, dint = q, dexp = exp_min\<rparr>)"
      using no_ovf True em(1) by (simp add: unf)
    have bound: "max (int n + e) (Etiny + 50) + 1 \<le>
                   max (int (ndigits (dint d)) + dexp d + 1) (Etiny + 51)"
      by (simp add: n_def c_def e_def)
    show ?thesis
    proof (cases "round_up c k")
      case False
      with rd have "dec_fix d = Inr \<lparr>dsign = dsign d, dint = q, dexp = exp_min\<rparr>" by simp
      moreover have "int (ndigits q) + exp_min \<le>
                       max (int (ndigits (dint d)) + dexp d + 1) (Etiny + 51)"
        using ndq em(3) bound by linarith
      ultimately show ?thesis by simp
    next
      case up: True
      show ?thesis
      proof (cases "int (ndigits (q + 1)) > 50")
        case True
        with rd up have "dec_fix d =
            Inr \<lparr>dsign = dsign d, dint = (q + 1) div 10, dexp = exp_min + 1\<rparr>" by simp
        moreover have "int (ndigits ((q + 1) div 10)) + (exp_min + 1) \<le>
                         max (int (ndigits (dint d)) + dexp d + 1) (Etiny + 51)"
          using ndc em(3) bound by linarith
        ultimately show ?thesis by simp
      next
        case False
        with rd up have "dec_fix d = Inr \<lparr>dsign = dsign d, dint = q + 1, dexp = exp_min\<rparr>"
          by simp
        moreover have "int (ndigits (q + 1)) + exp_min \<le>
                         max (int (ndigits (dint d)) + dexp d + 1) (Etiny + 51)"
          using False em(3) bound by linarith
        ultimately show ?thesis by simp
      qed
    qed
  qed
qed

lemma dec_mul_returns:
  assumes "int (ndigits (dint a)) + dexp a + int (ndigits (dint b)) + dexp b \<le> Etop + 49"
  shows "\<exists>p. dec_mul a b = Inr p"
proof -
  let ?d = "\<lparr>dsign = (dsign a \<noteq> dsign b), dint = dint a * dint b, dexp = dexp a + dexp b\<rparr>"
  have "int (ndigits (dint ?d)) + dexp ?d \<le> Etop + 49"
    using assms ndigits_mult_le [of "dint a" "dint b"] by simp
  from dec_fix_returns [OF this] show ?thesis
    by (auto simp: dec_mul_def)
qed

lemma strip_zeros_adjusted:
  "c \<noteq> 0 \<Longrightarrow> strip_zeros c e i = (c', e') \<Longrightarrow>
     int (ndigits c') + e' = int (ndigits c) + e"
proof (induction c e i rule: strip_zeros.induct)
  case (1 coeff e ideal)
  show ?case
  proof (cases "e < ideal \<and> coeff mod 10 = 0")
    case True
    with 1(2) have nz: "coeff div 10 \<noteq> 0" by auto
    from True 1(3) have "strip_zeros (coeff div 10) (e + 1) ideal = (c', e')"
      by (subst (asm) strip_zeros.simps) simp
    from 1(1) [OF True nz this] have "int (ndigits c') + e' = int (ndigits (coeff div 10)) + (e + 1)" .
    with ndigits_div10 [of coeff] 1(2) True show ?thesis by simp
  next
    case False
    with 1(3) show ?thesis by (subst (asm) strip_zeros.simps) auto
  qed
qed

lemma dec_div_returns:
  assumes "0 < b" and "a \<le> b"
  shows "\<exists>s. dec_div (Decimal (int a)) (Decimal (int b)) = Inr s \<and>
             int (ndigits (dint s)) + dexp s \<le> 2"
proof (cases "a = 0")
  case True
  have "int (ndigits (dint \<lparr>dsign = False, dint = 0, dexp = 0\<rparr>)) +
          dexp \<lparr>dsign = False, dint = 0, dexp = 0\<rparr> \<le> Etop + 49"
    by (simp add: dec_consts)
  from dec_fix_returns [OF this] obtain s where
    "dec_fix \<lparr>dsign = False, dint = 0, dexp = 0\<rparr> = Inr s" and
    "int (ndigits (dint s)) + dexp s \<le> 2"
    by (auto simp: dec_consts)
  with True assms(1) show ?thesis
    by (simp add: dec_div_def)
next
  case False
  define sh where "sh = ndigits b - ndigits a + 51"
  define coeff where "coeff = a * 10 ^ sh div b"
  define ce where "ce =
    (if a * 10 ^ sh mod b \<noteq> 0 then ((if coeff mod 5 = 0 then coeff + 1 else coeff), - int sh)
     else strip_zeros coeff (- int sh) 0)"
  have nd: "ndigits a \<le> ndigits b"
    using assms(2) by (rule ndigits_mono)
  then have shift: "int (ndigits b) - int (ndigits a) + prec + 1 = int sh"
    by (simp add: sh_def prec_def)
  have dv: "dec_div (Decimal (int a)) (Decimal (int b)) =
              dec_fix \<lparr>dsign = False, dint = fst ce, dexp = snd ce\<rparr>"
    using False assms(1)
    by (simp add: dec_div_def shift Let_def ce_def coeff_def case_prod_beta)
  have le: "coeff \<le> 10 ^ sh"
  proof -
    have "a * 10 ^ sh div b \<le> b * 10 ^ sh div b"
      using assms(2) by (intro div_le_mono mult_le_mono1)
    with assms(1) show ?thesis by (simp add: coeff_def)
  qed
  have pos: "coeff \<noteq> 0"
  proof -
    have "(10::nat) ^ ndigits b \<le> 10 ^ (ndigits a - 1 + sh)"
      using ndigits_pos [of a] nd by (intro power_increasing) (simp_all add: sh_def)
    also have "\<dots> = 10 ^ (ndigits a - 1) * 10 ^ sh"
      by (simp add: power_add)
    also have "\<dots> \<le> a * 10 ^ sh"
      using ndigits_lower [OF False] by (rule mult_le_mono1)
    finally have "b \<le> a * 10 ^ sh"
      using ndigits_upper [of b] by linarith
    with assms(1) have "1 \<le> a * 10 ^ sh div b"
      by (simp add: div_greater_zero_iff Suc_le_eq)
    then show ?thesis by (simp add: coeff_def)
  qed
  have adj: "int (ndigits (fst ce)) + snd ce \<le> 1"
  proof (cases "a * 10 ^ sh mod b \<noteq> 0")
    case True
    have "coeff \<noteq> 10 ^ sh"
    proof
      assume eq: "coeff = 10 ^ sh"
      have "b * coeff \<le> a * 10 ^ sh"
        unfolding coeff_def by (simp add: mult.commute)
      with eq assms(2) have "b * 10 ^ sh = a * 10 ^ sh"
        by (metis le_antisym mult_le_mono1)
      with True assms(1) show False by simp
    qed
    with le have "coeff + 1 \<le> 10 ^ sh" by linarith
    moreover have "(10::nat) ^ sh < 10 ^ (sh + 1)" by simp
    ultimately have "(if coeff mod 5 = 0 then coeff + 1 else coeff) < 10 ^ (sh + 1)"
      by (simp split: if_splits)
    then have "ndigits (if coeff mod 5 = 0 then coeff + 1 else coeff) \<le> sh + 1"
      by (simp add: ndigits_le_iff)
    with True show ?thesis by (simp add: ce_def)
  next
    case False
    then have ce: "strip_zeros coeff (- int sh) 0 = (fst ce, snd ce)"
      by (simp add: ce_def)
    have "(10::nat) ^ sh < 10 ^ (sh + 1)" by simp
    with le have "coeff < 10 ^ (sh + 1)" by linarith
    then have "ndigits coeff \<le> sh + 1"
      by (simp add: ndigits_le_iff)
    with strip_zeros_adjusted [OF pos ce] show ?thesis by linarith
  qed
  then have "int (ndigits (dint \<lparr>dsign = False, dint = fst ce, dexp = snd ce\<rparr>)) +
               dexp \<lparr>dsign = False, dint = fst ce, dexp = snd ce\<rparr> \<le> Etop + 49"
    by (simp add: dec_consts)
  from dec_fix_returns [OF this] adj dv show ?thesis
    by (auto simp: dec_consts)
qed

subsection \<open>The distribution returns\<close>

lemma member_le_sum_list_int:
  fixes xs :: "int list"
  shows "\<forall>y \<in> set xs. 0 \<le> y \<Longrightarrow> x \<in> set xs \<Longrightarrow> x \<le> sum_list xs"
proof (induction xs)
  case Nil
  then show ?case by simp
next
  case (Cons z zs)
  have "0 \<le> sum_list zs"
    using Cons.prems(1) by (intro sum_list_nonneg) simp
  with Cons show ?case by auto
qed

lemma share_returns:
  assumes "0 \<le> f" and "f \<le> tf" and "0 < tf" and "ndigits (nat \<bar>tot\<bar>) \<le> 999997"
  shows "\<exists>share p. dec_div (Decimal f) (Decimal tf) = Inr share \<and>
                    dec_mul share (Decimal tot) = Inr p"
proof -
  from assms(1-3) have "0 < nat tf" "nat f \<le> nat tf" by simp_all
  from dec_div_returns [OF this] assms(1,3) obtain share where
    sh: "dec_div (Decimal f) (Decimal tf) = Inr share" and
    adj: "int (ndigits (dint share)) + dexp share \<le> 2"
    by auto
  have "int (ndigits (dint share)) + dexp share + int (ndigits (dint (Decimal tot))) +
          dexp (Decimal tot) \<le> Etop + 49"
    using adj assms(4) by (simp add: dec_consts)
  from dec_mul_returns [OF this] sh show ?thesis by blast
qed

lemma distribute_loop_returns:
  assumes "\<forall>f \<in> set fs. 0 \<le> f \<and> f \<le> tf" and "0 < tf" and "ndigits (nat \<bar>tot\<bar>) \<le> 999997"
  shows "\<exists>r. distribute_loop fs tf tot rewards remaining = Inr r"
  using assms(1)
proof (induction fs arbitrary: rewards remaining)
  case Nil
  then show ?case by simp
next
  case (Cons f fs)
  then have "0 \<le> f" "f \<le> tf" by simp_all
  from share_returns [OF this assms(2,3)] obtain share p where
    "dec_div (Decimal f) (Decimal tf) = Inr share" "dec_mul share (Decimal tot) = Inr p"
    by blast
  moreover from Cons have
    "\<exists>r. distribute_loop fs tf tot (rewards @ [dec_to_int p]) (remaining - dec_to_int p) = Inr r"
    by simp
  ultimately show ?case by (simp add: Let_def)
qed

lemma fibonacci_distribution_returns:
  assumes "ndigits (nat \<bar>tot\<bar>) \<le> 999997"
  shows "\<exists>shares. fibonacci_distribution tot count = Inr shares"
proof (cases "1 \<le> count")
  case False
  then show ?thesis by (simp add: fibonacci_distribution_def)
next
  case True
  let ?fs = "fibonacci_sequence 1 count"
  have nonneg: "\<forall>f \<in> set ?fs. 0 \<le> f"
    by (auto simp: fibonacci_sequence_def fibonacci_nonneg)
  then have "\<forall>f \<in> set ?fs. 0 \<le> f \<and> f \<le> sum_list ?fs"
    using member_le_sum_list_int [of ?fs] by blast
  from distribute_loop_returns [OF this sum_fibonacci_sequence_pos [OF True] assms]
  obtain r where "distribute_loop ?fs (sum_list ?fs) tot [] tot = Inr r" by blast
  with True sum_fibonacci_sequence_pos [OF True] show ?thesis
    by (cases r) (auto simp: fibonacci_distribution_def Let_def split: list.splits)
qed

lemma calculate_rewards_returns:
  assumes "ndigits (nat \<bar>tot\<bar>) \<le> 999997"
  shows "\<exists>rewards. calculate_rewards st h tot = Inr rewards"
  using fibonacci_distribution_returns [OF assms, of "int (length (active_validators st))"]
  by (auto simp: calculate_rewards_def Let_def)


section \<open>The consensus engine: general lemmas\<close>

subsection \<open>Dicts as association lists\<close>

lemma update_absent: "k \<notin> fst ` set al \<Longrightarrow> AList.update k v al = al @ [(k, v)]"
  by (induction al) auto

lemma set_update_subset: "set (AList.update k v al) \<subseteq> insert (k, v) (set al)"
  by (induction al) auto

lemma map_of_present: "(map_of al k \<noteq> None) = (k \<in> fst ` set al)"
  by (simp add: map_of_eq_None_iff)

subsection \<open>add_validator\<close>

lemma add_validator_cases:
  assumes "add_validator st addr pk stk idx_opt = Inr (ok, st')"
  shows "(ok = False \<and> st' = st) \<or>
         (ok = True \<and> addr \<notin> fst ` set (validators st) \<and>
          (\<exists>v. st' = st\<lparr>validators := validators st @ [(addr, v)]\<rparr> \<and> address v = addr \<and>
               performance_score v = dec_one \<and> is_active v))"
proof (cases "map_of (validators st) addr \<noteq> None")
  case True
  with assms show ?thesis by (simp add: add_validator_def)
next
  case False
  then have absent: "addr \<notin> fst ` set (validators st)"
    by (simp add: map_of_eq_None_iff)
  from assms False obtain w where
    "st' = st\<lparr>validators := AList.update addr
        \<lparr>address = addr, public_key = pk, stake = stk, weight = w,
         fibonacci_index = (case idx_opt of None \<Rightarrow> int (length (validators st)) | Some i \<Rightarrow> i),
         is_active = True, last_validated = 0,
         performance_score = \<lparr>dsign = False, dint = 10, dexp = - 1\<rparr>\<rparr> (validators st)\<rparr>"
    and "ok = True"
    by (auto simp: add_validator_def bind_err_def Let_def split: sum.splits)
  with absent show ?thesis
    by (auto simp: update_absent dec_one_def)
qed

subsection \<open>select_leader\<close>

lemma active_Nil: "validators st = [] \<Longrightarrow> active_validators st = []"
  by (simp add: active_validators_def)

lemma select_leader_Nil:
  "active_validators st = [] \<Longrightarrow> select_leader st h = Inr (None, st)"
  by (simp add: select_leader_def)

lemma select_leader_active:
  assumes "active_validators st \<noteq> []"
  shows "select_leader st h =
           bind_err (total_priority st h) (\<lambda>tp.
             if dec_is_zero tp then Inr (Some (hd (active_validators st)), st)
             else
               let n = int (length (active_validators st));
                   selection_index = fibonacci (h mod n) mod n
               in Inr (Some (active_validators st ! nat selection_index),
                       st\<lparr>current_leader_index := selection_index,
                          round_number := round_number st + 1\<rparr>))"
proof -
  from assms obtain first rest where act: "active_validators st = first # rest"
    by (cases "active_validators st") auto
  with active_Nil have "validators st \<noteq> []" by fastforce
  with act show ?thesis
    by (auto simp: select_leader_def total_priority_def bind_err_def Let_def split: sum.splits)
qed

lemma selection_index_range:
  assumes "xs \<noteq> []"
  shows "nat (fibonacci (h mod int (length xs)) mod int (length xs)) < length xs"
proof -
  have "0 < int (length xs)" using assms by simp
  then have "0 \<le> fibonacci (h mod int (length xs)) mod int (length xs)"
    and "fibonacci (h mod int (length xs)) mod int (length xs) < int (length xs)"
    by simp_all
  then show ?thesis by linarith
qed

lemma select_leader_round:
  assumes "select_leader st h = Inr (r, st')"
  shows "validators st' = validators st \<and>
         (round_number st' = round_number st \<or> round_number st' = round_number st + 1)"
proof (cases "active_validators st = []")
  case True
  with assms show ?thesis by (simp add: select_leader_Nil)
next
  case False
  with assms show ?thesis
    by (auto simp: select_leader_active bind_err_def Let_def split: sum.splits if_splits)
qed

subsection \<open>validate_block\<close>

lemma update_validator_performance_success:
  assumes "map_of (validators st) addr = Some v"
  shows "update_validator_performance st addr True now =
           bind_err (success_score (performance_score v)) (\<lambda>score.
             Inr (st\<lparr>validators :=
                    AList.update addr (v\<lparr>performance_score := score, last_validated := now\<rparr>)
                      (validators st)\<rparr>))"
  using assms
  by (simp add: update_validator_performance_def success_score_def bind_err_def
           split: sum.splits)

lemma validate_block_cases:
  assumes "validate_block st blk p now = Inr (ok, st')"
  shows "(ok = False \<and> st' = st) \<or>
         (ok = True \<and>
          (\<exists>v score. map_of (validators st) p = Some v \<and> is_active v \<and>
             success_score (performance_score v) = Inr score \<and>
             st' = st\<lparr>validators :=
                      AList.update p (v\<lparr>performance_score := score, last_validated := now\<rparr>)
                        (validators st)\<rparr>))"
proof (cases "map_of (validators st) p")
  case None
  with assms show ?thesis by (simp add: validate_block_def)
next
  case (Some v)
  with assms show ?thesis
    by (auto simp: validate_block_def update_validator_performance_success bind_err_def Let_def
             split: if_splits sum.splits)
qed

lemma dec_less_irrefl: "\<not> dec_less a a"
  by (simp add: dec_less_def)

lemma success_score_le_one: "success_score old = Inr new \<Longrightarrow> dec_le new dec_one"
  by (auto simp: success_score_def bind_err_def dec_min_def dec_le_def dec_one_def dec_less_irrefl
           split: sum.splits if_splits)

subsection \<open>Sequences of calls\<close>

lemma exec_op_round: "round_number st \<le> round_number (exec_op x st)"
proof (cases x)
  case (Add_validator addr pk stk idx_opt)
  then show ?thesis
    by (auto split: sum.splits dest!: add_validator_cases)
next
  case (Select_leader h)
  then show ?thesis
    by (auto split: sum.splits dest!: select_leader_round)
next
  case (Validate_block blk p now)
  then show ?thesis
    by (auto split: sum.splits dest!: validate_block_cases)
qed simp_all

lemma run_ops_round: "round_number st \<le> round_number (run_ops xs st)"
proof (induction xs arbitrary: st)
  case Nil
  then show ?case by simp
next
  case (Cons x xs)
  have "round_number st \<le> round_number (exec_op x st)" by (rule exec_op_round)
  also have "\<dots> \<le> round_number (run_ops xs (exec_op x st))" by (rule Cons.IH)
  finally show ?case by simp
qed

lemma scores_le_one_update:
  assumes "scores_le_one st" and "dec_le (performance_score v) dec_one"
  shows "scores_le_one (st\<lparr>validators := AList.update k v (validators st)\<rparr>)"
  using assms set_update_subset [of k v "validators st"]
  by (auto simp: scores_le_one_def list_all_iff)

lemma exec_op_scores: "scores_le_one st \<Longrightarrow> scores_le_one (exec_op x st)"
proof (cases x)
  case (Add_validator addr pk stk idx_opt)
  assume inv: "scores_le_one st"
  show ?thesis
  proof (cases "add_validator st addr pk stk idx_opt")
    case (Inl e)
    with Add_validator inv show ?thesis by simp
  next
    case (Inr res)
    obtain ok st' where res: "res = (ok, st')" by (cases res)
    from add_validator_cases [OF Inr [unfolded res]] inv have "scores_le_one st'"
      by (auto simp: scores_le_one_def dec_le_def dec_less_irrefl)
    with Add_validator Inr res show ?thesis by simp
  qed
next
  case (Select_leader h)
  assume inv: "scores_le_one st"
  then show ?thesis using Select_leader
    by (auto simp: scores_le_one_def split: sum.splits dest!: select_leader_round)
next
  case (Validate_block blk p now)
  assume inv: "scores_le_one st"
  show ?thesis
  proof (cases "validate_block st blk p now")
    case (Inl e)
    with Validate_block inv show ?thesis by simp
  next
    case (Inr res)
    obtain ok st' where res: "res = (ok, st')" by (cases res)
    from validate_block_cases [OF Inr [unfolded res]] inv have "scores_le_one st'"
      by (auto intro!: scores_le_one_update dest: success_score_le_one)
    with Validate_block Inr res show ?thesis by simp
  qed
qed simp_all

lemma exec_op_score_change:
  assumes "map_of (validators st) a = Some v"
  shows "\<exists>v'. map_of (validators (exec_op x st)) a = Some v' \<and>
              (performance_score v' = performance_score v \<or>
               success_score (performance_score v) = Inr (performance_score v'))"
proof (cases x)
  case (Add_validator addr pk stk idx_opt)
  show ?thesis
  proof (cases "add_validator st addr pk stk idx_opt")
    case (Inl e)
    with Add_validator assms show ?thesis by simp
  next
    case (Inr res)
    obtain ok st' where res: "res = (ok, st')" by (cases res)
    from assms have "a \<in> fst ` set (validators st)"
      by (metis map_of_present option.distinct(1))
    with add_validator_cases [OF Inr [unfolded res]] assms
    have "map_of (validators st') a = Some v"
      by (auto simp: map_of_append)
    with Add_validator Inr res show ?thesis by simp
  qed
next
  case (Select_leader h)
  with assms show ?thesis
    by (auto split: sum.splits dest!: select_leader_round)
next
  case (Validate_block blk p now)
  show ?thesis
  proof (cases "validate_block st blk p now")
    case (Inl e)
    with Validate_block assms show ?thesis by simp
  next
    case (Inr res)
    obtain ok st' where res: "res = (ok, st')" by (cases res)
    from validate_block_cases [OF Inr [unfolded res]] assms
    have "\<exists>v'. map_of (validators st') a = Some v' \<and>
              (performance_score v' = performance_score v \<or>
               success_score (performance_score v) = Inr (performance_score v'))"
      by (auto simp: update_conv')
    with Validate_block Inr res show ?thesis by simp
  qed
qed (use assms in simp_all)

subsection \<open>calculate_rewards\<close>

lemma rewards_loop_zip:
  "distinct (map address vs) \<Longrightarrow> address ` set vs \<inter> fst ` set acc = {} \<Longrightarrow>
   n + length vs \<le> length amounts \<Longrightarrow>
   rewards_loop (enumerate n vs) amounts acc =
     acc @ zip (map address vs) (take (length vs) (drop n amounts))"
proof (induction vs arbitrary: n acc)
  case Nil
  then show ?case by simp
next
  case (Cons v vs)
  from Cons.prems(2) have absent: "address v \<notin> fst ` set acc" by auto
  from Cons.prems(3) have n: "n < length amounts" by simp
  have "rewards_loop (enumerate n (v # vs)) amounts acc =
          rewards_loop (enumerate (Suc n) vs) amounts (acc @ [(address v, amounts ! n)])"
    using n absent by (simp add: update_absent)
  also have "\<dots> = (acc @ [(address v, amounts ! n)]) @
                    zip (map address vs) (take (length vs) (drop (Suc n) amounts))"
  proof (rule Cons.IH)
    show "distinct (map address vs)" using Cons.prems(1) by simp
    show "address ` set vs \<inter> fst ` set (acc @ [(address v, amounts ! n)]) = {}"
      using Cons.prems(1,2) by auto
    show "Suc n + length vs \<le> length amounts" using Cons.prems(3) by simp
  qed
  also have "drop n amounts = amounts ! n # drop (Suc n) amounts"
    using n by (simp add: Cons_nth_drop_Suc)
  then have "(acc @ [(address v, amounts ! n)]) @
               zip (map address vs) (take (length vs) (drop (Suc n) amounts)) =
             acc @ zip (map address (v # vs)) (take (length (v # vs)) (drop n amounts))"
    by simp
  finally show ?case .
qed

lemma wf_active_distinct:
  assumes "wf_registry st"
  shows "distinct (map address (active_validators st))"
proof -
  from assms have d: "distinct (map fst (validators st))"
    and k: "\<forall>(k, v) \<in> set (validators st). address v = k"
    by (auto simp: wf_registry_def list_all_iff)
  from k have eq: "map address (map snd (validators st)) = map fst (validators st)"
    by auto
  have "distinct (map address (map snd (validators st)))"
    unfolding eq by (rule d)
  then have "distinct (map address (filter is_active (map snd (validators st))))"
    by (rule distinct_map_filter)
  then show ?thesis by (simp add: active_validators_def)
qed

lemma calculate_rewards_zip:
  assumes "wf_registry st" and "active_validators st \<noteq> []"
    and "calculate_rewards st h tot = Inr rewards"
  shows "\<exists>shares. fibonacci_distribution tot (int (length (active_validators st))) = Inr shares \<and>
           length shares = length (active_validators st) \<and>
           rewards = zip (map address (active_validators st)) shares \<and>
           sum_list (map snd rewards) = tot"
proof -
  let ?act = "active_validators st"
  from assms(2,3) obtain shares where
    fd: "fibonacci_distribution tot (int (length ?act)) = Inr shares" and
    rw: "rewards = rewards_loop (enumerate 0 ?act) shares []"
    by (auto simp: calculate_rewards_def Let_def bind_err_def split: sum.splits)
  from assms(2) have "1 \<le> int (length ?act)"
    by (cases ?act) auto
  from fibonacci_distribution_sum [OF this fd] have
    sm: "sum_list shares = tot" and len: "length shares = length ?act"
    by auto
  have "rewards_loop (enumerate 0 ?act) shares [] =
          [] @ zip (map address ?act) (take (length ?act) (drop 0 shares))"
    by (rule rewards_loop_zip) (use wf_active_distinct [OF assms(1)] len in auto)
  with rw len have z: "rewards = zip (map address ?act) shares" by simp
  with len sm have "sum_list (map snd rewards) = tot" by simp
  with fd len z show ?thesis by blast
qed

subsection \<open>The active list decides selection, schedule and rewards\<close>

lemma select_leader_leader:
  "map_sum id fst (select_leader st h) =
     (if active_validators st = [] then Inr None
      else
        bind_err (total_priority st h) (\<lambda>tp.
          if dec_is_zero tp then Inr (Some (hd (active_validators st)))
          else
            let n = int (length (active_validators st))
            in Inr (Some (active_validators st ! nat (fibonacci (h mod n) mod n)))))"
  by (auto simp: select_leader_Nil select_leader_active bind_err_def Let_def split: sum.splits)

lemma same_active_same_results:
  assumes "active_validators st1 = active_validators st2"
  shows "map_sum id fst (select_leader st1 h) = map_sum id fst (select_leader st2 h)"
    and "get_validator_rotation_schedule st1 n = get_validator_rotation_schedule st2 n"
    and "calculate_rewards st1 h tot = calculate_rewards st2 h tot"
  using assms
  by (simp_all add: select_leader_leader total_priority_def
        get_validator_rotation_schedule_def calculate_rewards_def cong: if_cong)

section \<open>Performance scores of the engines that calls can reach\<close>

lemma ndigits_pow10: "ndigits (10 ^ n) = n + 1"
  by (rule ndigits_eq) simp_all

lemma ndigits_95_pow10: "ndigits (10 ^ k * 95) = k + 2"
proof (rule ndigits_eq)
  show "10 ^ (k + 2 - 1) \<le> (10::nat) ^ k * 95 \<or> k + 2 = 1" by simp
  show "(10::nat) ^ k * 95 < 10 ^ (k + 2)" by simp
qed simp

lemma dec_val_unit_score: "dec_val (unit_score k) = 1"
  by (simp add: dec_val_def unit_score_def)

lemma dec_min_unit_score:
  assumes "1 \<le> n"
  shows "dec_min (unit_score n) \<lparr>dsign = False, dint = 10, dexp = - 1\<rparr> = unit_score n"
proof -
  obtain m where m: "n = Suc m"
    using assms by (cases n) auto
  have "nat (- 1 + int (Suc m)) = m" by simp
  then show ?thesis
    by (simp add: dec_min_def dec_less_def dec_scaled_def unit_score_def m min_def del: of_nat_Suc)
qed

lemma success_score_unit_low:
  assumes "k \<le> 47"
  shows "success_score (unit_score k) = Inr (unit_score (k + 2))"
proof -
  have mul: "dec_mul (unit_score k) \<lparr>dsign = False, dint = 95, dexp = - 2\<rparr> =
               Inr \<lparr>dsign = False, dint = 10 ^ k * 95, dexp = - int k - 2\<rparr>"
    using assms
    by (simp add: dec_mul_def dec_fix_def unit_score_def ndigits_95_pow10 dec_consts Let_def)
  have norm: "normalize_ops \<lparr>dsign = False, dint = 10 ^ k * 95, dexp = - int k - 2\<rparr>
                \<lparr>dsign = False, dint = 5, dexp = - 2\<rparr> = (10 ^ k * 95, 5 * 10 ^ k, - int k - 2)"
  proof -
    have "nat (- 2 - (- int k - 2)) = k" by simp
    then show ?thesis
      by (simp add: normalize_ops_def ndigits_95_pow10 dec_consts Let_def)
  qed
  have sum: "(10::nat) ^ k * 95 + 5 * 10 ^ k = 10 ^ (k + 2)"
    by simp
  have add: "dec_add \<lparr>dsign = False, dint = 10 ^ k * 95, dexp = - int k - 2\<rparr>
               \<lparr>dsign = False, dint = 5, dexp = - 2\<rparr> = Inr (unit_score (k + 2))"
    using assms
    by (simp add: dec_add_def norm sum dec_fix_def ndigits_pow10 unit_score_def dec_consts
          Let_def del: power_Suc)
  show ?thesis
    by (simp add: success_score_def mul add dec_min_unit_score)
qed

lemma success_score_unit_48: "success_score (unit_score 48) = Inr (unit_score 49)"
  by (simp add: success_score_def unit_score_def dec_min_def dec_less_def dec_scaled_def dec_eval)

lemma success_score_unit_49: "success_score (unit_score 49) = Inr (unit_score 49)"
  by (simp add: success_score_def unit_score_def dec_min_def dec_less_def dec_scaled_def dec_eval)

lemma success_score_unit:
  assumes "1 \<le> k" and "k \<le> 49"
  shows "success_score (unit_score k) = Inr (unit_score (min (k + 2) 49))"
proof -
  from assms consider "k \<le> 47" | "k = 48" | "k = 49"
    by linarith
  then show ?thesis
  proof cases
    case 1
    then show ?thesis by (simp add: success_score_unit_low min_def)
  next
    case 2
    then show ?thesis by (simp add: success_score_unit_48)
  next
    case 3
    then show ?thesis by (simp add: success_score_unit_49)
  qed
qed


lemma is_unit_score_val: "is_unit_score s \<Longrightarrow> dec_val s = 1"
  by (auto simp: is_unit_score_def dec_val_unit_score)

lemma is_unit_score_success:
  assumes "is_unit_score s"
  shows "\<exists>s'. success_score s = Inr s' \<and> is_unit_score s'"
proof -
  from assms obtain k where k: "1 \<le> k" "k \<le> 49" "s = unit_score k"
    by (auto simp: is_unit_score_def)
  then have "success_score s = Inr (unit_score (min (k + 2) 49))"
    by (simp add: success_score_unit)
  moreover have "is_unit_score (unit_score (min (k + 2) 49))"
    by (auto simp: is_unit_score_def)
  ultimately show ?thesis by blast
qed

lemma is_unit_score_one: "is_unit_score \<lparr>dsign = False, dint = 10, dexp = - 1\<rparr>"
proof -
  have "unit_score 1 = \<lparr>dsign = False, dint = 10, dexp = - 1\<rparr>"
    by (simp add: unit_score_def)
  then show ?thesis
    unfolding is_unit_score_def by (metis atLeastAtMost_iff imageI one_le_numeral order_refl)
qed

lemma unit_scores_lookup:
  "unit_scores st \<Longrightarrow> map_of (validators st) a = Some v \<Longrightarrow> is_unit_score (performance_score v)"
  by (auto simp: unit_scores_def list_all_iff dest: map_of_SomeD)

lemma unit_scores_update:
  assumes "unit_scores st" and "is_unit_score (performance_score v)"
  shows "unit_scores (st\<lparr>validators := AList.update k v (validators st)\<rparr>)"
  using assms set_update_subset [of k v "validators st"]
  by (auto simp: unit_scores_def list_all_iff)

lemma exec_op_unit_scores: "unit_scores st \<Longrightarrow> unit_scores (exec_op x st)"
proof (cases x)
  case (Add_validator addr pk stk idx_opt)
  assume inv: "unit_scores st"
  show ?thesis
  proof (cases "add_validator st addr pk stk idx_opt")
    case (Inl e)
    with Add_validator inv show ?thesis by simp
  next
    case (Inr res)
    obtain ok st' where res: "res = (ok, st')" by (cases res)
    from add_validator_cases [OF Inr [unfolded res]] inv have "unit_scores st'"
      using is_unit_score_one by (auto simp: unit_scores_def dec_one_def)
    with Add_validator Inr res show ?thesis by simp
  qed
next
  case (Select_leader h)
  assume inv: "unit_scores st"
  then show ?thesis using Select_leader
    by (auto simp: unit_scores_def split: sum.splits dest!: select_leader_round)
next
  case (Validate_block blk p now)
  assume inv: "unit_scores st"
  show ?thesis
  proof (cases "validate_block st blk p now")
    case (Inl e)
    with Validate_block inv show ?thesis by simp
  next
    case (Inr res)
    obtain ok st' where res: "res = (ok, st')" by (cases res)
    from validate_block_cases [OF Inr [unfolded res]] show ?thesis
    proof
      assume "ok = False \<and> st' = st"
      with Validate_block Inr res inv show ?thesis by simp
    next
      assume "ok = True \<and>
          (\<exists>v score. map_of (validators st) p = Some v \<and> is_active v \<and>
             success_score (performance_score v) = Inr score \<and>
             st' = st\<lparr>validators :=
                      AList.update p (v\<lparr>performance_score := score, last_validated := now\<rparr>)
                        (validators st)\<rparr>)"
      then obtain v score where
        look: "map_of (validators st) p = Some v" and
        sc: "success_score (performance_score v) = Inr score" and
        st': "st' = st\<lparr>validators :=
                      AList.update p (v\<lparr>performance_score := score, last_validated := now\<rparr>)
                        (validators st)\<rparr>"
        by blast
      from is_unit_score_success [OF unit_scores_lookup [OF inv look]] sc
      have "is_unit_score score" by auto
      with inv st' have "unit_scores st'"
        by (simp add: unit_scores_update)
      with Validate_block Inr res show ?thesis by simp
    qed
  qed
qed simp_all

lemma run_ops_unit_scores: "unit_scores st \<Longrightarrow> unit_scores (run_ops xs st)"
  by (induction xs arbitrary: st) (auto intro: exec_op_unit_scores)

lemma init_unit_scores: "init_consensus nid = Inr st0 \<Longrightarrow> unit_scores st0"
  by (auto simp: init_consensus_def bind_err_def unit_scores_def split: sum.splits)

lemma reachable_success_value:
  assumes "init_consensus nid = Inr st0" and "st = run_ops xs st0"
    and "map_of (validators st) p = Some v"
    and "validate_block st blk p now = Inr (True, st')"
  shows "\<exists>v'. map_of (validators st') p = Some v' \<and> last_validated v' = now \<and>
           dec_val (performance_score v') =
             min 1 (dec_val (performance_score v) * (95 / 100) + 5 / 100)"
proof -
  from assms(1,2) have inv: "unit_scores st"
    by (simp add: init_unit_scores run_ops_unit_scores)
  from validate_block_cases [OF assms(4)] assms(3) obtain score where
    sc: "success_score (performance_score v) = Inr score" and
    st': "st' = st\<lparr>validators :=
                  AList.update p (v\<lparr>performance_score := score, last_validated := now\<rparr>)
                    (validators st)\<rparr>"
    by auto
  from unit_scores_lookup [OF inv assms(3)] have old: "is_unit_score (performance_score v)" .
  from is_unit_score_success [OF old] sc have new: "is_unit_score score" by auto
  from st' have "map_of (validators st') p =
                   Some (v\<lparr>performance_score := score, last_validated := now\<rparr>)"
    by (simp add: update_conv')
  moreover have "dec_val score = min 1 (dec_val (performance_score v) * (95 / 100) + 5 / 100)"
    by (simp add: is_unit_score_val [OF old] is_unit_score_val [OF new])
  ultimately show ?thesis by simp
qed

lemma reachable_validate_block_returns:
  assumes "init_consensus nid = Inr st0" and "st = run_ops xs st0"
  shows "\<exists>ok st'. validate_block st blk p now = Inr (ok, st')"
proof (cases "map_of (validators st) p")
  case None
  then show ?thesis by (auto simp: validate_block_def)
next
  case (Some v)
  from assms have inv: "unit_scores st"
    by (simp add: init_unit_scores run_ops_unit_scores)
  from is_unit_score_success [OF unit_scores_lookup [OF inv Some]] obtain s' where
    "success_score (performance_score v) = Inr s'" by blast
  with Some show ?thesis
    by (auto simp: validate_block_def update_validator_performance_success Let_def)
qed

section \<open>The example engines, evaluated\<close>

subsection \<open>Building the example engines\<close>

lemma fibonacci_0: "fibonacci 0 = 0"
  by (simp add: fibonacci_def)

lemma golden_pow_0: "golden_pow 0 = Inr \<lparr>dsign = False, dint = 1, dexp = 0\<rparr>"
  by (simp add: golden_pow_def)

lemma golden_pow_1: "golden_pow 1 = Inr \<lparr>dsign = False, dint = 16180339887, dexp = - 10\<rparr>"
  by (simp add: golden_pow_def golden_ratio_10_def dec_eval)

lemma golden_pow_2:
  "golden_pow 2 = Inr \<lparr>dsign = False, dint = 261803398858843172769, dexp = - 20\<rparr>"
  by (simp add: golden_pow_def golden_ratio_10_def dec_eval)

lemma init_engine0: "init_consensus ''phi-mainnet-1'' = Inr engine0"
  by (simp add: init_consensus_def engine0_def golden_ratio_2_def dec_eval)

lemma build_engine_ab:
  "bind_err (add_validator engine0 ''alice'' ''pk_a'' 10 None) (\<lambda>(ok1, st1).
   bind_err (add_validator st1 ''bob'' ''pk_b'' 20 None) (\<lambda>(ok2, st2). Inr (ok1, ok2, st2)))
     = Inr (True, True, engine_ab)"
  by (simp add: add_validator_def engine0_def engine_ab_def alice_def bob_def
        golden_pow_0 golden_pow_1)

lemma build_engine_ba:
  "bind_err (add_validator engine0 ''bob'' ''pk_b'' 20 (Some 1)) (\<lambda>(ok1, st1).
   bind_err (add_validator st1 ''alice'' ''pk_a'' 10 (Some 0)) (\<lambda>(ok2, st2). Inr (ok1, ok2, st2)))
     = Inr (True, True, engine_ba)"
  by (simp add: add_validator_def engine0_def engine_ba_def alice_def bob_def
        golden_pow_0 golden_pow_1)

lemma build_engine_abc:
  "add_validator engine_ab ''carol'' ''pk_c'' 30 None = Inr (True, engine_abc)"
  by (simp add: add_validator_def engine0_def engine_ab_def engine_abc_def alice_def bob_def
        carol_def golden_pow_2)

lemma run_ops_engine_ab:
  "run_ops [Add_validator ''alice'' ''pk_a'' 10 None, Add_validator ''bob'' ''pk_b'' 20 None]
     engine0 = engine_ab"
  by (simp add: add_validator_def engine0_def engine_ab_def alice_def bob_def
        golden_pow_0 golden_pow_1)

lemma active_engine_ab: "active_validators engine_ab = [alice, bob]"
  by (simp add: active_validators_def engine_ab_def engine0_def alice_def bob_def)

lemma active_engine_ba: "active_validators engine_ba = [bob, alice]"
  by (simp add: active_validators_def engine_ba_def engine0_def alice_def bob_def)

lemma active_engine_abc: "active_validators engine_abc = [alice, bob, carol]"
  by (simp add: active_validators_def engine_abc_def engine0_def alice_def bob_def carol_def)

lemma wf_engine_ab: "wf_registry engine_ab"
  by (simp add: wf_registry_def engine_ab_def engine0_def alice_def bob_def)

lemma wf_engine_ba: "wf_registry engine_ba"
  by (simp add: wf_registry_def engine_ba_def engine0_def alice_def bob_def)

lemma canonical_engine_ba: "canonical_active_list engine_ba = [alice, bob]"
  by (simp add: canonical_active_list_def active_engine_ba) (simp add: alice_def bob_def)

lemma canonical_engine_abc: "canonical_active_list engine_abc = [alice, bob, carol]"
  by (simp add: canonical_active_list_def active_engine_abc) (simp add: alice_def bob_def carol_def)

subsection \<open>Priorities of the example validators\<close>

lemma modulation_1:
  "dec_div (Decimal 1) (Decimal 1000) = Inr \<lparr>dsign = False, dint = 1, dexp = - 3\<rparr>"
proof -
  have "strip_zeros (1 * 10 ^ 51) (- 54) 0 = strip_zeros 1 (- 54 + int 51) 0"
    by (rule strip_zeros_pow10) simp
  also have "\<dots> = (1, - 3)"
    by (simp add: strip_zeros_stop)
  finally have "strip_zeros 1000000000000000000000000000000000000000000000000000 (- 54) 0 = (1, - 3)"
    by simp
  then show ?thesis
    by (simp add: dec_div_def dec_fix_def dec_consts Let_def)
qed

lemma modulation_0:
  "dec_div (Decimal 0) (Decimal 1000) = Inr \<lparr>dsign = False, dint = 0, dexp = 0\<rparr>"
  by (simp add: dec_div_def dec_fix_def dec_consts)

lemma priority_alice_1:
  "get_priority_score alice 1 = Inr \<lparr>dsign = False, dint = 100, dexp = - 4\<rparr>"
  by (simp add: get_priority_score_def alice_def fibonacci_1 golden_pow_0 modulation_1 dec_eval)

lemma priority_bob_1:
  "get_priority_score bob 1 =
     Inr \<lparr>dsign = False, dint = 52360679771768634553800, dexp = - 24\<rparr>"
  by (simp add: get_priority_score_def bob_def fibonacci_1 golden_pow_1 modulation_1 dec_eval)

lemma priority_alice_100:
  "get_priority_score alice 100 = Inr \<lparr>dsign = False, dint = 0, dexp = - 1\<rparr>"
  by (simp add: get_priority_score_def alice_def fibonacci_0 golden_pow_0 modulation_0 dec_eval)

lemma priority_bob_100:
  "get_priority_score bob 100 = Inr \<lparr>dsign = False, dint = 0, dexp = - 21\<rparr>"
  by (simp add: get_priority_score_def bob_def fibonacci_0 golden_pow_1 modulation_0 dec_eval)

lemma priority_carol_100:
  "get_priority_score carol 100 = Inr \<lparr>dsign = False, dint = 0, dexp = - 41\<rparr>"
  by (simp add: get_priority_score_def carol_def fibonacci_0 golden_pow_2 modulation_0 dec_eval)

lemma total_priority_ab_1:
  "total_priority engine_ab 1 =
     Inr \<lparr>dsign = False, dint = 62360679771768634553800, dexp = - 24\<rparr>"
  by (simp add: total_priority_def active_engine_ab priority_alice_1 priority_bob_1 dec_eval)

lemma total_priority_ba_1:
  "total_priority engine_ba 1 =
     Inr \<lparr>dsign = False, dint = 62360679771768634553800, dexp = - 24\<rparr>"
  by (simp add: total_priority_def active_engine_ba priority_alice_1 priority_bob_1 dec_eval)

lemma total_priority_abc_100:
  "total_priority engine_abc 100 = Inr \<lparr>dsign = False, dint = 0, dexp = - 41\<rparr>"
  by (simp add: total_priority_def active_engine_abc priority_alice_100 priority_bob_100
        priority_carol_100 dec_eval)

lemma select_leader_ab_1:
  "select_leader engine_ab 1 =
     Inr (Some bob, engine_ab\<lparr>current_leader_index := 1, round_number := 1\<rparr>)"
proof -
  have "select_leader engine_ab 1 =
          Inr (Some bob, engine_ab\<lparr>current_leader_index := 1,
                                   round_number := round_number engine_ab + 1\<rparr>)"
    by (simp add: select_leader_active active_engine_ab total_priority_ab_1 dec_is_zero_def
          Let_def fibonacci_1)
  moreover have "round_number engine_ab = 0"
    by (simp add: engine_ab_def engine0_def)
  ultimately show ?thesis by simp
qed

lemma select_leader_ba_1:
  "select_leader engine_ba 1 =
     Inr (Some alice, engine_ba\<lparr>current_leader_index := 1, round_number := 1\<rparr>)"
proof -
  have "select_leader engine_ba 1 =
          Inr (Some alice, engine_ba\<lparr>current_leader_index := 1,
                                   round_number := round_number engine_ba + 1\<rparr>)"
    by (simp add: select_leader_active active_engine_ba total_priority_ba_1 dec_is_zero_def
          Let_def fibonacci_1)
  moreover have "round_number engine_ba = 0"
    by (simp add: engine_ba_def engine0_def)
  ultimately show ?thesis by simp
qed

lemma select_leader_abc_100:
  "select_leader engine_abc 100 = Inr (Some alice, engine_abc)"
  by (simp add: select_leader_active active_engine_abc total_priority_abc_100 dec_is_zero_def)

subsection \<open>Distributions\<close>

lemma fibonacci_2: "fibonacci 2 = 1"
  by (simp add: fibonacci_def)

lemma fibonacci_3: "fibonacci 3 = 2"
  by (simp add: fibonacci_def numeral_eq_Suc)

lemma fibonacci_4: "fibonacci 4 = 3"
  by (simp add: fibonacci_def numeral_eq_Suc)

lemma fibonacci_sequence_2: "fibonacci_sequence 1 2 = [1, 1]"
proof -
  have "[0 ..< nat 2] = [0, 1]"
    by (simp add: eval_nat_numeral)
  then show ?thesis
    by (simp add: fibonacci_sequence_def fibonacci_1 fibonacci_2)
qed

lemma fibonacci_sequence_4: "fibonacci_sequence 1 4 = [1, 1, 2, 3]"
proof -
  have "[0 ..< nat 4] = [0, 1, 2, 3]"
    by (simp add: eval_nat_numeral)
  then show ?thesis
    by (simp add: fibonacci_sequence_def fibonacci_1 fibonacci_2 fibonacci_3 fibonacci_4)
qed

lemma share_half: "dec_div (Decimal 1) (Decimal 2) = Inr \<lparr>dsign = False, dint = 5, dexp = - 1\<rparr>"
proof -
  have "strip_zeros (5 * 10 ^ 50) (- 51) 0 = strip_zeros 5 (- 51 + int 50) 0"
    by (rule strip_zeros_pow10) simp
  also have "\<dots> = (5, - 1)"
    by (simp add: strip_zeros_stop)
  finally have "strip_zeros 500000000000000000000000000000000000000000000000000 (- 51) 0 = (5, - 1)"
    by simp
  then show ?thesis
    by (simp add: dec_div_def dec_fix_def dec_consts Let_def)
qed

lemma fibonacci_distribution_1_2: "fibonacci_distribution 1 2 = Inr [1, 0]"
  by (simp add: fibonacci_distribution_def fibonacci_sequence_2 share_half dec_eval)

lemma calculate_rewards_ba: "calculate_rewards engine_ba h 1 = Inr [(''bob'', 1), (''alice'', 0)]"
  by (simp add: calculate_rewards_def active_engine_ba fibonacci_distribution_1_2)
     (simp add: alice_def bob_def)

lemma share_1_7:
  "dec_div (Decimal 1) (Decimal 7) =
     Inr \<lparr>dsign = False, dint = 14285714285714285714285714285714285714285714285714, dexp = - 50\<rparr>"
  by (simp add: dec_div_def dec_fix_def round_up_def dec_consts Let_def)

lemma share_2_7:
  "dec_div (Decimal 2) (Decimal 7) =
     Inr \<lparr>dsign = False, dint = 28571428571428571428571428571428571428571428571429, dexp = - 50\<rparr>"
  by (simp add: dec_div_def dec_fix_def round_up_def dec_consts Let_def)

lemma share_3_7:
  "dec_div (Decimal 3) (Decimal 7) =
     Inr \<lparr>dsign = False, dint = 42857142857142857142857142857142857142857142857143, dexp = - 50\<rparr>"
  by (simp add: dec_div_def dec_fix_def round_up_def dec_consts Let_def)

lemma amount_1_7:
  "dec_mul \<lparr>dsign = False, dint = 14285714285714285714285714285714285714285714285714, dexp = - 50\<rparr>
     (Decimal 7) =
   Inr \<lparr>dsign = False, dint = 99999999999999999999999999999999999999999999999998, dexp = - 50\<rparr>"
  by (simp add: dec_eval)

lemma amount_2_7:
  "dec_mul \<lparr>dsign = False, dint = 28571428571428571428571428571428571428571428571429, dexp = - 50\<rparr>
     (Decimal 7) =
   Inr \<lparr>dsign = False, dint = 20000000000000000000000000000000000000000000000000, dexp = - 49\<rparr>"
  by (simp add: dec_eval)

lemma amount_3_7:
  "dec_mul \<lparr>dsign = False, dint = 42857142857142857142857142857142857142857142857143, dexp = - 50\<rparr>
     (Decimal 7) =
   Inr \<lparr>dsign = False, dint = 30000000000000000000000000000000000000000000000000, dexp = - 49\<rparr>"
  by (simp add: dec_eval)

lemma fibonacci_distribution_7_4: "fibonacci_distribution 7 4 = Inr [2, 0, 2, 3]"
  by (simp add: fibonacci_distribution_def fibonacci_sequence_4 share_1_7 share_2_7 share_3_7
        amount_1_7 amount_2_7 amount_3_7 dec_to_int_def)

subsection \<open>Validation\<close>

lemma success_score_one:
  "success_score \<lparr>dsign = False, dint = 10, dexp = - 1\<rparr> =
     Inr \<lparr>dsign = False, dint = 1000, dexp = - 3\<rparr>"
  by (simp add: success_score_def dec_min_def dec_less_def dec_scaled_def dec_eval)

lemma verify_block1: "verify_fibonacci_proof
    \<lparr>proof_fibonacci_number = Some 1, proof_fibonacci_index = Some 1\<rparr> block1"
  "verify_golden_hash block1" "verify_signature block1 pk"
  by (simp_all add: verify_fibonacci_proof_def verify_golden_hash_def verify_signature_def
        block1_def fibonacci_1)

lemma validate_block1_alice:
  "validate_block engine_ab block1 ''alice'' now =
     Inr (True, engine_ab\<lparr>validators :=
        [(''alice'', alice\<lparr>performance_score := \<lparr>dsign = False, dint = 1000, dexp = - 3\<rparr>,
                             last_validated := now\<rparr>), (''bob'', bob)]\<rparr>)"
proof -
  have look: "map_of (validators engine_ab) ''alice'' = Some alice"
    by (simp add: engine_ab_def engine0_def)
  have act: "is_active alice" "performance_score alice = \<lparr>dsign = False, dint = 10, dexp = - 1\<rparr>"
    by (simp_all add: alice_def)
  have mp: "mathematical_proof block1 =
              Some \<lparr>proof_fibonacci_number = Some 1, proof_fibonacci_index = Some 1\<rparr>"
    by (simp add: block1_def)
  have upd: "AList.update ''alice'' v (validators engine_ab) = [(''alice'', v), (''bob'', bob)]" for v
    by (simp add: engine_ab_def engine0_def)
  show ?thesis
    by (simp add: validate_block_def look act mp verify_block1
          update_validator_performance_success [OF look] success_score_one upd)
qed

lemma canonical_engine_ab: "canonical_active_list engine_ab = [alice, bob]"
  by (simp add: canonical_active_list_def active_engine_ab) (simp add: alice_def bob_def)

lemma alice_neq_bob: "alice \<noteq> bob"
  by (simp add: alice_def bob_def)

section \<open>The claims\<close>

text \<open>
  C1, as stated: for a non-empty active set of size N, \<open>select_leader(h)\<close> returns the
  validator at position \<open>fibonacci(h mod N) mod N\<close> of the canonical (address-sorted)
  active list. It fails twice. With alice, bob and carol registered in this order and
  height 100 every priority is zero, and the guard \<^verbatim>\<open>if total_priority == 0\<close> returns the
  first active validator (alice) although position \<open>fibonacci(100 mod 3) mod 3 = 1\<close> holds
  bob. With bob registered before alice and height 1 the method indexes the list in
  insertion order and returns alice, although position 1 of the sorted list holds bob.
\<close>

theorem select_leader_canonical_counterexample:
  "select_leader engine_abc 100 = Inr (Some alice, engine_abc) \<and>
   canonical_active_list engine_abc ! nat (fibonacci (100 mod 3) mod 3) = bob \<and>
   select_leader engine_ba 1 =
     Inr (Some alice, engine_ba\<lparr>current_leader_index := 1, round_number := 1\<rparr>) \<and>
   canonical_active_list engine_ba ! nat (fibonacci (1 mod 2) mod 2) = bob \<and>
   alice \<noteq> bob"
  by (simp add: select_leader_abc_100 select_leader_ba_1 canonical_engine_abc
        canonical_engine_ba fibonacci_1 alice_neq_bob)

text \<open>
  C1, amended: whenever \<open>select_leader(h)\<close> returns, it returns none exactly when there
  is no active validator; otherwise, with N active validators listed in registry insertion
  order, it returns the first of them when the total priority is zero and the one at
  position \<open>fibonacci(h mod N) mod N\<close> (a valid index) when it is not.
\<close>

theorem select_leader_position:
  assumes "select_leader st h = Inr (r, st')"
  shows "(r = None \<longleftrightarrow> active_validators st = []) \<and>
         (active_validators st \<noteq> [] \<longrightarrow>
            (\<exists>tp. total_priority st h = Inr tp \<and>
               nat (fibonacci (h mod int (length (active_validators st)))
                      mod int (length (active_validators st))) < length (active_validators st) \<and>
               r = Some (active_validators st !
                           (if dec_is_zero tp then 0
                            else nat (fibonacci (h mod int (length (active_validators st)))
                                        mod int (length (active_validators st)))))))"
proof (cases "active_validators st = []")
  case True
  with assms show ?thesis by (simp add: select_leader_Nil)
next
  case False
  from assms False obtain tp where
    tp: "total_priority st h = Inr tp" and
    r: "r = (if dec_is_zero tp then Some (hd (active_validators st))
             else Some (active_validators st !
                          nat (fibonacci (h mod int (length (active_validators st)))
                                 mod int (length (active_validators st)))))"
    by (auto simp: select_leader_active bind_err_def Let_def split: sum.splits if_splits)
  from False have "hd (active_validators st) = active_validators st ! 0"
    by (simp add: hd_conv_nth)
  with False tp r selection_index_range [OF False, of h] show ?thesis
    by auto
qed

theorem select_leader_position_witness:
  "select_leader engine_ab 1 =
     Inr (Some bob, engine_ab\<lparr>current_leader_index := 1, round_number := 1\<rparr>) \<and>
   active_validators engine_ab = [alice, bob] \<and>
   total_priority engine_ab 1 =
     Inr \<lparr>dsign = False, dint = 62360679771768634553800, dexp = - 24\<rparr> \<and>
   Some bob = Some (active_validators engine_ab ! nat (fibonacci (1 mod 2) mod 2))"
  using select_leader_position [OF select_leader_ab_1]
  by (simp add: select_leader_ab_1 active_engine_ab total_priority_ab_1 fibonacci_1)

text \<open>
  C2, as stated: the active list behind \<open>select_leader\<close>, the rotation schedule and the
  rewards is sorted by address, so two registries with the same active set select the
  same leader. The two registries below hold the same validators, alice and bob, and so
  have the same sorted list; at height 1 the one that registered alice first selects bob
  and the other selects alice.
\<close>

theorem same_active_set_counterexample:
  "set (active_validators engine_ab) = set (active_validators engine_ba) \<and>
   canonical_active_list engine_ab = canonical_active_list engine_ba \<and>
   active_validators engine_ba \<noteq> canonical_active_list engine_ba \<and>
   map_sum id fst (select_leader engine_ab 1) = Inr (Some bob) \<and>
   map_sum id fst (select_leader engine_ba 1) = Inr (Some alice) \<and>
   bob \<noteq> alice"
  using alice_neq_bob
  by (auto simp: select_leader_ab_1 select_leader_ba_1 canonical_engine_ab canonical_engine_ba
        active_engine_ab active_engine_ba)

text \<open>
  C2, amended: the list behind \<open>select_leader\<close>, \<open>get_validator_rotation_schedule\<close> and
  \<open>calculate_rewards\<close> is the active validators in registry insertion order; the leader,
  the schedule and the rewards are functions of that list and the arguments, the same for
  any two engines with the same insertion-ordered active list.
\<close>

theorem active_list_decides:
  assumes "active_validators st1 = active_validators st2"
  shows "active_validators st1 = filter is_active (map snd (validators st1)) \<and>
         map_sum id fst (select_leader st1 h) = map_sum id fst (select_leader st2 h) \<and>
         get_validator_rotation_schedule st1 n = get_validator_rotation_schedule st2 n \<and>
         calculate_rewards st1 h tot = calculate_rewards st2 h tot"
  using same_active_same_results [OF assms]
  by (simp add: active_validators_def)

theorem active_list_decides_witness:
  "active_validators engine_ab =
     active_validators (engine_ab\<lparr>current_leader_index := 1, round_number := 1\<rparr>) \<and>
   map_sum id fst (select_leader engine_ab 1) = Inr (Some bob) \<and>
   map_sum id fst (select_leader (engine_ab\<lparr>current_leader_index := 1, round_number := 1\<rparr>) 1)
     = Inr (Some bob)"
proof -
  have same: "active_validators engine_ab =
                active_validators (engine_ab\<lparr>current_leader_index := 1, round_number := 1\<rparr>)"
    by (simp add: active_validators_def)
  from active_list_decides [OF same, of 1] same show ?thesis
    by (simp add: select_leader_ab_1)
qed

text \<open>
  C3, as stated: every call to \<open>select_leader\<close> that returns a leader increments
  \<open>round_number\<close> by one and sets \<open>current_leader_index\<close>. At height 100 the call on
  the engine of alice, bob and carol returns alice through the zero-priority guard and
  leaves the engine, with its round number 0, as it was.
\<close>

theorem select_leader_round_counterexample:
  "select_leader engine_abc 100 = Inr (Some alice, engine_abc) \<and>
   round_number engine_abc = 0"
  by (simp add: select_leader_abc_100) (simp add: engine_abc_def engine0_def)

text \<open>
  C3, amended: a call to \<open>select_leader\<close> that returns a leader with a non-zero total
  priority increments \<open>round_number\<close> by exactly one and sets \<open>current_leader_index\<close>
  to the index of the returned validator; a call that returns a leader with total
  priority zero leaves the engine unchanged; and \<open>round_number\<close> never decreases across
  any sequence of engine calls.
\<close>

theorem select_leader_round_number:
  "(select_leader st h = Inr (Some v, st') \<longrightarrow>
      (\<exists>tp. total_priority st h = Inr tp \<and>
         (if dec_is_zero tp then st' = st
          else round_number st' = round_number st + 1 \<and>
               current_leader_index st' =
                 fibonacci (h mod int (length (active_validators st)))
                   mod int (length (active_validators st)) \<and>
               v = active_validators st ! nat (current_leader_index st')))) \<and>
   round_number st \<le> round_number (run_ops xs st)"
proof -
  have "\<exists>tp. total_priority st h = Inr tp \<and>
         (if dec_is_zero tp then st' = st
          else round_number st' = round_number st + 1 \<and>
               current_leader_index st' =
                 fibonacci (h mod int (length (active_validators st)))
                   mod int (length (active_validators st)) \<and>
               v = active_validators st ! nat (current_leader_index st'))"
    if sel: "select_leader st h = Inr (Some v, st')"
  proof -
    from sel have "active_validators st \<noteq> []"
      by (auto simp: select_leader_Nil)
    with sel show ?thesis
      by (auto simp: select_leader_active bind_err_def Let_def split: sum.splits if_splits)
  qed
  with run_ops_round [of st xs] show ?thesis by blast
qed

theorem select_leader_round_number_witness:
  "select_leader engine_ab 1 =
     Inr (Some bob, engine_ab\<lparr>current_leader_index := 1, round_number := 1\<rparr>) \<and>
   round_number (engine_ab\<lparr>current_leader_index := 1, round_number := 1\<rparr>) =
     round_number engine_ab + 1 \<and>
   bob = active_validators engine_ab ! nat 1 \<and>
   round_number engine_ab \<le> round_number (run_ops [Select_leader 1, Select_leader 100] engine_ab)"
  using select_leader_round_number
          [of engine_ab 1 bob "engine_ab\<lparr>current_leader_index := 1, round_number := 1\<rparr>"
              "[Select_leader 1, Select_leader 100]"]
  by (simp add: select_leader_ab_1 total_priority_ab_1 dec_is_zero_def active_engine_ab)

text \<open>
  C4, as stated: the shares of \<open>fibonacci_distribution\<close> sum to the total with the
  leftover in slot 0, and the rewards of \<open>calculate_rewards\<close> sum to the total reward
  with the remainder going to the first validator in canonical (address-sorted) order.
  With bob registered before alice and a total reward of 1, both truncated shares are 0
  and the remainder 1 goes to bob, the first validator in insertion order, while the first
  validator in canonical order is alice.
\<close>

theorem rewards_remainder_counterexample:
  "calculate_rewards engine_ba 1 1 = Inr [(''bob'', 1), (''alice'', 0)] \<and>
   address (hd (canonical_active_list engine_ba)) = ''alice''"
  by (simp add: calculate_rewards_ba canonical_engine_ba) (simp add: alice_def)

text \<open>
  C4, amended: for every total and every count of at least 1, the shares returned by
  \<open>fibonacci_distribution(total, count)\<close> are count many, sum exactly to the total, and are
  the truncated shares with the leftover added entirely to slot 0; consequently, for every
  well-formed registry with a non-empty active set, \<open>calculate_rewards\<close> pairs the active
  validators in registry insertion order with these shares, so its values sum exactly to
  the total reward and the remainder goes to the first active validator in insertion order.
  Both calls return (no decimal operation overflows) for every total of at most 999997
  decimal digits.
\<close>

theorem rewards_conservation:
  "(1 \<le> count \<and> fibonacci_distribution tot count = Inr shares \<longrightarrow>
      sum_list shares = tot \<and> length shares = nat count \<and>
      (\<exists>raw. distribute_loop (fibonacci_sequence 1 count) (sum_list (fibonacci_sequence 1 count))
                tot [] tot = Inr (raw, tot - sum_list raw) \<and>
             length raw = nat count \<and>
             shares = (hd raw + (tot - sum_list raw)) # tl raw)) \<and>
   (wf_registry st \<and> active_validators st \<noteq> [] \<and> calculate_rewards st h tot = Inr rewards \<longrightarrow>
      (\<exists>amounts. fibonacci_distribution tot (int (length (active_validators st))) = Inr amounts \<and>
         rewards = zip (map address (active_validators st)) amounts \<and>
         length amounts = length (active_validators st) \<and>
         sum_list (map snd rewards) = tot)) \<and>
   (ndigits (nat \<bar>tot\<bar>) \<le> 999997 \<longrightarrow>
      (\<exists>xs. fibonacci_distribution tot count = Inr xs) \<and>
      (\<exists>rs. calculate_rewards st h tot = Inr rs))"
proof -
  have "sum_list shares = tot \<and> length shares = nat count \<and>
      (\<exists>raw. distribute_loop (fibonacci_sequence 1 count) (sum_list (fibonacci_sequence 1 count))
                tot [] tot = Inr (raw, tot - sum_list raw) \<and>
             length raw = nat count \<and>
             shares = (hd raw + (tot - sum_list raw)) # tl raw)"
    if "1 \<le> count" and "fibonacci_distribution tot count = Inr shares"
    using fibonacci_distribution_sum [OF that] fibonacci_distribution_unfold [OF that]
    by blast
  moreover have "\<exists>amounts. fibonacci_distribution tot (int (length (active_validators st))) = Inr amounts \<and>
         rewards = zip (map address (active_validators st)) amounts \<and>
         length amounts = length (active_validators st) \<and>
         sum_list (map snd rewards) = tot"
    if "wf_registry st" and "active_validators st \<noteq> []" and "calculate_rewards st h tot = Inr rewards"
    using calculate_rewards_zip [OF that] by blast
  moreover have "(\<exists>xs. fibonacci_distribution tot count = Inr xs) \<and>
      (\<exists>rs. calculate_rewards st h tot = Inr rs)"
    if "ndigits (nat \<bar>tot\<bar>) \<le> 999997"
    using fibonacci_distribution_returns [OF that] calculate_rewards_returns [OF that]
    by blast
  ultimately show ?thesis by blast
qed

theorem rewards_conservation_witness:
  "(1::int) \<le> 2 \<and> fibonacci_distribution 1 2 = Inr [1, 0] \<and> sum_list [1, 0] = (1::int) \<and>
   wf_registry engine_ba \<and> active_validators engine_ba = [bob, alice] \<and>
   calculate_rewards engine_ba 1 1 = Inr [(''bob'', 1), (''alice'', 0)] \<and>
   sum_list (map snd [(''bob'', 1), (''alice'', 0::int)]) = 1 \<and>
   ndigits (nat \<bar>1\<bar>) = 1"
  using rewards_conservation [of 2 1 "[1, 0]" engine_ba 1 "[(''bob'', 1), (''alice'', 0)]"]
  by (simp add: fibonacci_distribution_1_2 wf_engine_ba active_engine_ba calculate_rewards_ba)

text \<open>
  C5, as stated: for every slot \<open>i\<close> in \<open>[1, count)\<close> the share is
  \<open>floor(F(i+1) * total / (F(1) + ... + F(count)))\<close> in exact integer arithmetic. For a
  total of 7 over 4 slots the Fibonacci numbers 1, 1, 2, 3 sum to 7 and the exact share of
  slot 1 is \<open>floor(1 * 7 / 7) = 1\<close>; the source divides in 50-digit decimals, where
  \<open>1 / 7\<close> rounds down, \<open>(1 / 7) * 7\<close> is below 1, and the share is 0.
\<close>

theorem share_floor_counterexample:
  "fibonacci_distribution 7 4 = Inr [2, 0, 2, 3] \<and>
   ([2, 0, 2, 3] :: int list) ! 1 = 0 \<and>
   (fibonacci (1 + 1) * 7) div sum_list (fibonacci_sequence 1 4) = 1"
  by (simp add: fibonacci_distribution_7_4 fibonacci_2 fibonacci_sequence_4)

text \<open>
  C5, amended: for every total, every count of at least 1 and every slot \<open>i\<close> in
  \<open>[1, count)\<close>, the \<open>i\<close>-th share returned by \<open>fibonacci_distribution(total, count)\<close> is
  the integer part of the 50-digit decimal product of \<open>total\<close> with the 50-digit decimal
  quotient \<open>F(i+1) / (F(1) + ... + F(count))\<close>, each rounded half-even (slot 0 receives
  its such share plus the leftover).
\<close>

theorem share_decimal:
  assumes "1 \<le> count" and "fibonacci_distribution tot count = Inr shares"
    and "1 \<le> i" and "i < count"
  shows "\<exists>share p.
           dec_div (Decimal (fibonacci (i + 1))) (Decimal (sum_list (fibonacci_sequence 1 count)))
             = Inr share \<and>
           dec_mul share (Decimal tot) = Inr p \<and>
           shares ! nat i = dec_to_int p"
proof -
  let ?fs = "fibonacci_sequence 1 count"
  from fibonacci_distribution_unfold [OF assms(1,2)] obtain raw where
    loop: "distribute_loop ?fs (sum_list ?fs) tot [] tot = Inr (raw, tot - sum_list raw)" and
    sh: "shares = (hd raw + (tot - sum_list raw)) # tl raw" and len: "length raw = nat count"
    by blast
  from assms(3,4) have i: "nat i < length ?fs"
    by (simp add: length_fibonacci_sequence)
  from distribute_loop_nth [OF loop i] obtain share p where
    d: "dec_div (Decimal (?fs ! nat i)) (Decimal (sum_list ?fs)) = Inr share" and
    m: "dec_mul share (Decimal tot) = Inr p" and r: "raw ! nat i = dec_to_int p"
    by auto
  from assms(3,4) have "?fs ! nat i = fibonacci (i + 1)"
    by (simp add: nth_fibonacci_sequence add.commute)
  moreover from assms(3) obtain j where j: "nat i = Suc j"
    by (cases "nat i") auto
  with len assms(4) have "shares ! nat i = raw ! nat i"
    unfolding sh by (cases raw) auto
  ultimately show ?thesis
    using d m r by auto
qed

theorem share_decimal_witness:
  "(1::int) \<le> 4 \<and> fibonacci_distribution 7 4 = Inr [2, 0, 2, 3] \<and> (1::int) \<le> 1 \<and> (1::int) < 4 \<and>
   dec_div (Decimal (fibonacci (1 + 1))) (Decimal (sum_list (fibonacci_sequence 1 4))) =
     Inr \<lparr>dsign = False, dint = 14285714285714285714285714285714285714285714285714, dexp = - 50\<rparr> \<and>
   dec_mul \<lparr>dsign = False, dint = 14285714285714285714285714285714285714285714285714, dexp = - 50\<rparr>
     (Decimal 7) =
     Inr \<lparr>dsign = False, dint = 99999999999999999999999999999999999999999999999998, dexp = - 50\<rparr> \<and>
   ([2, 0, 2, 3] :: int list) ! nat 1 =
     dec_to_int \<lparr>dsign = False, dint = 99999999999999999999999999999999999999999999999998, dexp = - 50\<rparr>"
  using share_decimal [of 4 7 "[2, 0, 2, 3]" 1]
  by (simp add: fibonacci_distribution_7_4 fibonacci_2 fibonacci_sequence_4 share_1_7 amount_1_7
        dec_to_int_def)

text \<open>
  C6: for every registry, \<open>add_validator\<close> with an address already present returns
  failure and leaves the whole engine, and so the registry and every validator in it,
  unchanged.
\<close>

theorem add_validator_duplicate:
  assumes "addr \<in> fst ` set (validators st)"
  shows "add_validator st addr pk stk idx_opt = Inr (False, st)"
proof -
  from assms have "map_of (validators st) addr \<noteq> None"
    using map_of_eq_None_iff [of "validators st" addr] by blast
  then show ?thesis
    by (simp add: add_validator_def)
qed

theorem add_validator_duplicate_witness:
  "''alice'' \<in> fst ` set (validators engine_ab) \<and>
   add_validator engine_ab ''alice'' ''pk_x'' 99 (Some 7) = Inr (False, engine_ab)"
proof -
  have "''alice'' \<in> fst ` set (validators engine_ab)"
    by (simp add: engine_ab_def engine0_def)
  with add_validator_duplicate [OF this] show ?thesis by simp
qed

lemma run_ops_scores: "scores_le_one st \<Longrightarrow> scores_le_one (run_ops xs st)"
  by (induction xs arbitrary: st) (auto intro: exec_op_scores)

lemma scores_engine_ab: "scores_le_one engine_ab"
  by (simp add: scores_le_one_def engine_ab_def engine0_def alice_def bob_def dec_le_def
        dec_one_def dec_less_def)

text \<open>
  C7: for every registered active proposer with performance score \<open>old\<close>, a successful
  \<open>validate_block\<close> sets the proposer's score to \<open>min(old * 0.95 + 0.05, 1.0)\<close>, computed
  in the decimal arithmetic of the source, and \<open>last_validated\<close> to the current time,
  leaving everything else as it was; the new score does not exceed 1.0, and no sequence
  of engine calls takes a registry whose scores are at most 1.0 to one where a score
  exceeds it. In every engine that calls can reach from a fresh one, the decimal
  arithmetic is exact: the value of the new score is \<open>min(1, old * 95/100 + 5/100)\<close> as
  rational numbers.
\<close>

theorem validate_block_success:
  "(map_of (validators st) p = Some v \<and> is_active v \<and>
      validate_block st blk p now = Inr (True, st') \<longrightarrow>
      (\<exists>score. success_score (performance_score v) = Inr score \<and>
         dec_le score dec_one \<and>
         st' = st\<lparr>validators :=
                  AList.update p (v\<lparr>performance_score := score, last_validated := now\<rparr>)
                    (validators st)\<rparr> \<and>
         map_of (validators st') p =
           Some (v\<lparr>performance_score := score, last_validated := now\<rparr>))) \<and>
   (scores_le_one st \<longrightarrow> scores_le_one (run_ops xs st)) \<and>
   (init_consensus nid = Inr st0 \<and> st = run_ops ys st0 \<and>
      map_of (validators st) p = Some v \<and> validate_block st blk p now = Inr (True, st') \<longrightarrow>
      (\<exists>v'. map_of (validators st') p = Some v' \<and> last_validated v' = now \<and>
         dec_val (performance_score v') =
           min 1 (dec_val (performance_score v) * (95 / 100) + 5 / 100)))"
proof -
  have "\<exists>score. success_score (performance_score v) = Inr score \<and>
         dec_le score dec_one \<and>
         st' = st\<lparr>validators :=
                  AList.update p (v\<lparr>performance_score := score, last_validated := now\<rparr>)
                    (validators st)\<rparr> \<and>
         map_of (validators st') p =
           Some (v\<lparr>performance_score := score, last_validated := now\<rparr>)"
    if look: "map_of (validators st) p = Some v" and
       ok: "validate_block st blk p now = Inr (True, st')"
  proof -
    from validate_block_cases [OF ok] look obtain score where
      sc: "success_score (performance_score v) = Inr score" and
      st': "st' = st\<lparr>validators :=
                      AList.update p (v\<lparr>performance_score := score, last_validated := now\<rparr>)
                        (validators st)\<rparr>"
      by auto
    from st' have "map_of (validators st') p =
                     Some (v\<lparr>performance_score := score, last_validated := now\<rparr>)"
      by (simp add: update_conv')
    with sc st' success_score_le_one [OF sc] show ?thesis by blast
  qed
  moreover have "\<exists>v'. map_of (validators st') p = Some v' \<and> last_validated v' = now \<and>
         dec_val (performance_score v') =
           min 1 (dec_val (performance_score v) * (95 / 100) + 5 / 100)"
    if "init_consensus nid = Inr st0" and "st = run_ops ys st0"
      and "map_of (validators st) p = Some v" and "validate_block st blk p now = Inr (True, st')"
    using that by (rule reachable_success_value)
  ultimately show ?thesis
    using run_ops_scores [of st xs] by blast
qed

theorem validate_block_success_witness:
  "init_consensus ''phi-mainnet-1'' = Inr engine0 \<and>
   engine_ab =
     run_ops [Add_validator ''alice'' ''pk_a'' 10 None, Add_validator ''bob'' ''pk_b'' 20 None]
       engine0 \<and>
   map_of (validators engine_ab) ''alice'' = Some alice \<and> is_active alice \<and>
   validate_block engine_ab block1 ''alice'' 1700000000 =
     Inr (True, engine_ab\<lparr>validators :=
        [(''alice'', alice\<lparr>performance_score := \<lparr>dsign = False, dint = 1000, dexp = - 3\<rparr>,
                             last_validated := 1700000000\<rparr>), (''bob'', bob)]\<rparr>) \<and>
   success_score (performance_score alice) = Inr \<lparr>dsign = False, dint = 1000, dexp = - 3\<rparr> \<and>
   dec_val \<lparr>dsign = False, dint = 1000, dexp = - 3\<rparr> = 1 \<and>
   scores_le_one engine_ab \<and>
   scores_le_one (run_ops [Validate_block block1 ''alice'' 1700000000, Select_leader 1] engine_ab)"
proof -
  have look: "map_of (validators engine_ab) ''alice'' = Some alice"
    by (simp add: engine_ab_def engine0_def)
  have act: "is_active alice"
    by (simp add: alice_def)
  have sc: "success_score (performance_score alice) =
              Inr \<lparr>dsign = False, dint = 1000, dexp = - 3\<rparr>"
    by (simp add: alice_def success_score_one)
  have val: "dec_val \<lparr>dsign = False, dint = 1000, dexp = - 3\<rparr> = 1"
    by (simp add: dec_val_def)
  have inv: "scores_le_one
               (run_ops [Validate_block block1 ''alice'' 1700000000, Select_leader 1] engine_ab)"
    using validate_block_success
            [of engine_ab "''alice''" alice block1 1700000000
                "engine_ab\<lparr>validators :=
                   [(''alice'', alice\<lparr>performance_score := \<lparr>dsign = False, dint = 1000, dexp = - 3\<rparr>,
                                        last_validated := 1700000000\<rparr>), (''bob'', bob)]\<rparr>"
                "[Validate_block block1 ''alice'' 1700000000, Select_leader 1]"]
          scores_engine_ab
    by blast
  show ?thesis
    by (intro conjI)
       (rule init_engine0 run_ops_engine_ab [symmetric] look act validate_block1_alice sc val
          scores_engine_ab inv)+
qed



text \<open>
  C9: whenever \<open>validate_block\<close> returns false the engine, and with it every
  \<open>performance_score\<close> and \<open>last_validated\<close>, is unchanged; and no engine call applies the
  failure decay: after any call the score of every registered validator is either what
  it was or the result of the success update of what it was.
\<close>

theorem validate_block_failure:
  "(validate_block st blk p now = Inr (False, st') \<longrightarrow> st' = st) \<and>
   (map_of (validators st) a = Some v \<longrightarrow>
      (\<exists>v'. map_of (validators (exec_op x st)) a = Some v' \<and>
         (performance_score v' = performance_score v \<or>
          success_score (performance_score v) = Inr (performance_score v'))))"
  using validate_block_cases [of st blk p now False st'] exec_op_score_change [of st a v x]
  by blast

theorem validate_block_failure_witness:
  "validate_block engine_ab block1 ''carol'' 1700000000 = Inr (False, engine_ab) \<and>
   map_of (validators engine_ab) ''alice'' = Some alice \<and>
   map_of (validators (exec_op (Validate_block block1 ''carol'' 1700000000) engine_ab)) ''alice''
     = Some alice"
proof -
  have fail: "validate_block engine_ab block1 ''carol'' 1700000000 = Inr (False, engine_ab)"
    by (simp add: validate_block_def engine_ab_def engine0_def)
  have look: "map_of (validators engine_ab) ''alice'' = Some alice"
    by (simp add: engine_ab_def engine0_def)
  from validate_block_failure
         [of engine_ab block1 "''carol''" 1700000000 engine_ab "''alice''" alice
             "Validate_block block1 ''carol'' 1700000000"]
  show ?thesis
    by (simp add: fail look)
qed

text \<open>
  C10: \<open>calculate_rewards\<close> does not depend on its block height: for every engine and
  every total reward, any two heights give the same result.
\<close>

theorem calculate_rewards_height_independent:
  "calculate_rewards st h1 total_reward = calculate_rewards st h2 total_reward"
  by (simp add: calculate_rewards_def)

end
